theory Spec2Isabelle
  imports Main
begin

section \<open>Values and Python primitives\<close>

text \<open>
  The exporter (\<^verbatim>\<open>src/tools/notion_export.py\<close>) works on the values that
  \<^verbatim>\<open>json.loads\<close> returns: \<^verbatim>\<open>None\<close>, booleans, integers, strings, lists and
  dicts with string keys. Floating-point numbers are left out of the model.
  A Python string is modelled as a \<^typ>\<open>string\<close>, one \<^typ>\<open>char\<close> for each code point
  (so code points below 256). Integers are unbounded, as in Python. The limits of
  CPython on a 64-bit machine are modelled where the exporter can meet them: the 4300
  digits that \<^verbatim>\<open>int\<close> accepts at most, and the repeat count of a string, which
  must fit 64 bits. Running out of memory is not modelled.

  A dict is the list of the pairs it was built from, in insertion order. A later pair
  for the same key overrides the value of an earlier one, as in Python.
\<close>

datatype json =
    JNull
  | JBool bool
  | JInt int
  | JStr string
  | JArr "json list"
  | JObj "(string \<times> json) list"

text \<open>The exceptions that the program can raise, by their Python class.\<close>

datatype exn =
    AttributeError
  | TypeError
  | KeyError
  | ValueError
  | IndexError
  | OverflowError
  | TransportError
  | OSError

text \<open>Truth value of a value in a condition (\<^verbatim>\<open>if x\<close>, \<^verbatim>\<open>x or y\<close>, \<^verbatim>\<open>not x\<close>).\<close>

fun truthy :: "json \<Rightarrow> bool" where
  "truthy JNull = False"
| "truthy (JBool b) = b"
| "truthy (JInt i) = (i \<noteq> 0)"
| "truthy (JStr s) = (s \<noteq> [])"
| "truthy (JArr xs) = (xs \<noteq> [])"
| "truthy (JObj kvs) = (kvs \<noteq> [])"

text \<open>\<^verbatim>\<open>d.get(k, default)\<close> and \<^verbatim>\<open>k in d\<close> on the pairs of a dict.\<close>

definition dict_get :: "(string \<times> json) list \<Rightarrow> string \<Rightarrow> json \<Rightarrow> json" where
  "dict_get kvs k d = (case map_of (rev kvs) k of None \<Rightarrow> d | Some v \<Rightarrow> v)"

definition dict_has :: "(string \<times> json) list \<Rightarrow> string \<Rightarrow> bool" where
  "dict_has kvs k = (map_of (rev kvs) k \<noteq> None)"

text \<open>The keys of a dict in iteration order: each key once, at its first insertion.\<close>

definition dict_keys :: "(string \<times> json) list \<Rightarrow> string list" where
  "dict_keys kvs = rev (remdups (rev (map fst kvs)))"

definition dict_items :: "(string \<times> json) list \<Rightarrow> (string \<times> json) list" where
  "dict_items kvs = map (\<lambda>k. (k, dict_get kvs k JNull)) (dict_keys kvs)"

text \<open>
  \<^verbatim>\<open>x.get(k, default)\<close> on any value: only a dict has the method, every other value
  raises AttributeError.
\<close>

fun get :: "json \<Rightarrow> string \<Rightarrow> json \<Rightarrow> exn + json" where
  "get (JObj kvs) k d = Inr (dict_get kvs k d)"
| "get _ k d = Inl AttributeError"

text \<open>
  \<^verbatim>\<open>x[k]\<close> with a string \<open>k\<close>: KeyError on a dict without the key, TypeError on every
  value that is not a dict (a list or a string wants an integer index, the others are not
  subscriptable).
\<close>

fun subscript :: "json \<Rightarrow> string \<Rightarrow> exn + json" where
  "subscript (JObj kvs) k =
     (case map_of (rev kvs) k of None \<Rightarrow> Inl KeyError | Some v \<Rightarrow> Inr v)"
| "subscript _ k = Inl TypeError"

text \<open>
  Iteration (\<^verbatim>\<open>for x in v\<close>, \<^verbatim>\<open>list.extend(v)\<close>): a list gives its elements, a
  string its characters as one-character strings, a dict its keys; the other values are
  not iterable.
\<close>

fun py_iter :: "json \<Rightarrow> exn + json list" where
  "py_iter (JArr xs) = Inr xs"
| "py_iter (JStr s) = Inr (map (\<lambda>c. JStr [c]) s)"
| "py_iter (JObj kvs) = Inr (map JStr (dict_keys kvs))"
| "py_iter _ = Inl TypeError"

text \<open>Decimal digits of a number, as \<^verbatim>\<open>str\<close> prints an \<^verbatim>\<open>int\<close>.\<close>

definition digit_char :: "nat \<Rightarrow> char" where
  "digit_char d = ''0123456789'' ! d"

fun str_nat :: "nat \<Rightarrow> string" where
  "str_nat n = (if n < 10 then [digit_char n] else str_nat (n div 10) @ [digit_char (n mod 10)])"

declare str_nat.simps [simp del]

definition str_int :: "int \<Rightarrow> string" where
  "str_int i = (if i < 0 then ''-'' @ str_nat (nat (- i)) else str_nat (nat i))"

text \<open>
  What an f-string field \<^verbatim>\<open>{v}\<close> inserts: a string as it is, the other values through
  \<^verbatim>\<open>str\<close>. The text Python prints for a list or a dict (its \<^verbatim>\<open>repr\<close>) is the
  parameter \<open>r\<close>; no rule of the exporter looks at it.
\<close>

fun py_str :: "(json \<Rightarrow> string) \<Rightarrow> json \<Rightarrow> string" where
  "py_str r (JStr s) = s"
| "py_str r JNull = ''None''"
| "py_str r (JBool b) = (if b then ''True'' else ''False'')"
| "py_str r (JInt i) = str_int i"
| "py_str r v = r v"

text \<open>
  \<^verbatim>\<open>str.isspace\<close> on one character, for the code points below 256: tab, line feed,
  vertical tab, form feed, carriage return, the four separators 0x1C to 0x1F, space,
  next line (0x85) and no-break space (0xA0).
\<close>

definition py_isspace :: "char \<Rightarrow> bool" where
  "py_isspace c =
     (let n = (of_char c :: nat)
      in (9 \<le> n \<and> n \<le> 13) \<or> (28 \<le> n \<and> n \<le> 32) \<or> n = 133 \<or> n = 160)"

definition rstrip :: "string \<Rightarrow> string" where
  "rstrip s = rev (dropWhile py_isspace (rev s))"

definition strip :: "string \<Rightarrow> string" where
  "strip s = rstrip (dropWhile py_isspace s)"

text \<open>\<^verbatim>\<open>s.startswith(p)\<close> and \<^verbatim>\<open>s.split(sep)\<close> for a one-character separator.\<close>

definition startswith :: "string \<Rightarrow> string \<Rightarrow> bool" where
  "startswith s p = (take (length p) s = p)"

fun split :: "char \<Rightarrow> string \<Rightarrow> string list" where
  "split sep [] = [[]]"
| "split sep (c # cs) =
     (if c = sep then [] # split sep cs
      else (case split sep cs of [] \<Rightarrow> [[c]] | p # ps \<Rightarrow> (c # p) # ps))"

text \<open>\<^verbatim>\<open>xs[i]\<close> on a list, for an index that is not negative.\<close>

definition index :: "'a list \<Rightarrow> nat \<Rightarrow> exn + 'a" where
  "index xs i = (if i < length xs then Inr (xs ! i) else Inl IndexError)"

text \<open>
  \<^verbatim>\<open>int(s)\<close> on a string without underscores (the exporter calls it on a piece of
  \<^verbatim>\<open>split('_')\<close>): white space around the number is dropped, one sign may come
  first, and what is left must be one or more of the digits 0 to 9; anything else raises
  ValueError. The white space that \<^verbatim>\<open>int\<close> drops is tab, line feed, vertical tab, form
  feed, carriage return, space, next line and no-break space. More than 4300 digits
  (the default of \<^verbatim>\<open>sys.get_int_max_str_digits()\<close>, leading zeros counted) raise
  ValueError too.
\<close>

definition max_str_digits :: nat where
  "max_str_digits = 4300"

definition int_space :: "char \<Rightarrow> bool" where
  "int_space c =
     (let n = (of_char c :: nat) in (9 \<le> n \<and> n \<le> 13) \<or> n = 32 \<or> n = 133 \<or> n = 160)"

definition is_digit :: "char \<Rightarrow> bool" where
  "is_digit c = (let n = (of_char c :: nat) in 48 \<le> n \<and> n \<le> 57)"

definition digits_value :: "string \<Rightarrow> nat" where
  "digits_value ds = foldl (\<lambda>a c. 10 * a + (of_char c - 48)) 0 ds"

definition unsigned_int :: "string \<Rightarrow> exn + int" where
  "unsigned_int ds =
     (if ds \<noteq> [] \<and> list_all is_digit ds \<and> length ds \<le> max_str_digits
      then Inr (int (digits_value ds)) else Inl ValueError)"

definition py_int :: "string \<Rightarrow> exn + int" where
  "py_int s =
     (case rev (dropWhile int_space (rev (dropWhile int_space s))) of
        [] \<Rightarrow> Inl ValueError
      | c # cs \<Rightarrow>
          if c = CHR ''-'' then
            (case unsigned_int cs of Inl e \<Rightarrow> Inl e | Inr v \<Rightarrow> Inr (- v))
          else if c = CHR ''+'' then unsigned_int cs
          else unsigned_int (c # cs))"

section \<open>Inline renderer\<close>

text \<open>
  One pass of the loop body of \<^verbatim>\<open>rt_to_md\<close>: the text of one run. The value is the
  item appended to \<^verbatim>\<open>parts\<close>: a string once any wrap was applied, otherwise
  \<^verbatim>\<open>plain_text\<close> as it came.
\<close>

definition wrap :: "(json \<Rightarrow> string) \<Rightarrow> json \<Rightarrow> string \<Rightarrow> json \<Rightarrow> json" where
  "wrap r flag mark txt = (if truthy flag then JStr (mark @ py_str r txt @ mark) else txt)"

fun render_run :: "(json \<Rightarrow> string) \<Rightarrow> json \<Rightarrow> exn + json" where
  "render_run r (JObj rt) =
     (let txt = dict_get rt ''plain_text'' (JStr '''')
      in case dict_get rt ''annotations'' (JObj []) of
           JObj ann \<Rightarrow>
             (let txt = wrap r (dict_get ann ''code'' JNull) ''`'' txt;
                  txt = wrap r (dict_get ann ''bold'' JNull) ''**'' txt;
                  txt = wrap r (dict_get ann ''italic'' JNull) ''*'' txt;
                  txt = wrap r (dict_get ann ''strikethrough'' JNull) ''~~'' txt;
                  href = dict_get rt ''href'' JNull;
                  txt = (if truthy href
                         then JStr (''['' @ py_str r txt @ '']('' @ py_str r href @ '')'')
                         else txt)
              in Inr txt)
         | _ \<Rightarrow> Inl AttributeError)"
| "render_run r _ = Inl AttributeError"

text \<open>The loop over the runs stops at the first run that raises.\<close>

fun render_runs :: "(json \<Rightarrow> string) \<Rightarrow> json list \<Rightarrow> exn + json list" where
  "render_runs r [] = Inr []"
| "render_runs r (rt # rts) =
     (case render_run r rt of
        Inl e \<Rightarrow> Inl e
      | Inr p \<Rightarrow> (case render_runs r rts of Inl e \<Rightarrow> Inl e | Inr ps \<Rightarrow> Inr (p # ps)))"

text \<open>\<^verbatim>\<open>''.join(parts)\<close>: TypeError when an item is not a string.\<close>

fun join :: "json list \<Rightarrow> exn + string" where
  "join [] = Inr []"
| "join (JStr s # ps) = (case join ps of Inl e \<Rightarrow> Inl e | Inr t \<Rightarrow> Inr (s @ t))"
| "join (_ # ps) = Inl TypeError"

definition rt_to_md :: "(json \<Rightarrow> string) \<Rightarrow> json \<Rightarrow> exn + string" where
  "rt_to_md r rich_text =
     (case py_iter (if truthy rich_text then rich_text else JArr []) of
        Inl e \<Rightarrow> Inl e
      | Inr rts \<Rightarrow> (case render_runs r rts of Inl e \<Rightarrow> Inl e | Inr parts \<Rightarrow> join parts))"

section \<open>Block renderer\<close>

text \<open>
  The two expressions that \<^verbatim>\<open>block_to_md\<close> repeats in its branches:
  \<^verbatim>\<open>block[t].get(k, d)\<close> and \<^verbatim>\<open>rt_to_md(block[t].get('rich_text'))\<close>.
\<close>

definition payload_get :: "json \<Rightarrow> string \<Rightarrow> string \<Rightarrow> json \<Rightarrow> exn + json" where
  "payload_get block t k d =
     (case subscript block t of Inl e \<Rightarrow> Inl e | Inr p \<Rightarrow> get p k d)"

definition payload_text :: "(json \<Rightarrow> string) \<Rightarrow> json \<Rightarrow> string \<Rightarrow> exn + string" where
  "payload_text r block t =
     (case payload_get block t ''rich_text'' JNull of
        Inl e \<Rightarrow> Inl e
      | Inr v \<Rightarrow> rt_to_md r v)"

text \<open>
  \<^verbatim>\<open>'  '*indent\<close>: empty for an indent that is not positive. The exporter passes
  0 and 1 only, so the limit on the repeat count is left out here.
\<close>

definition indent_prefix :: "int \<Rightarrow> string" where
  "indent_prefix indent = concat (replicate (nat indent) ''  '')"

text \<open>
  \<^verbatim>\<open>c*n\<close> for a character \<open>c\<close>: \<open>n\<close> copies, none for a negative \<open>n\<close>, and
  OverflowError for an \<open>n\<close> that does not fit a signed 64-bit integer.
\<close>

definition repeat_char :: "char \<Rightarrow> int \<Rightarrow> exn + string" where
  "repeat_char c n =
     (if n < - (2 ^ 63) \<or> 2 ^ 63 \<le> n then Inl OverflowError else Inr (replicate (nat n) c))"

text \<open>
  The branch for a type that starts with \<^verbatim>\<open>heading_\<close>. In the f-string,
  \<^verbatim>\<open>'#'*lvl\<close> is evaluated before the payload is read.
\<close>

definition heading_md :: "(json \<Rightarrow> string) \<Rightarrow> json \<Rightarrow> string \<Rightarrow> exn + string" where
  "heading_md r block t =
     (case index (split (CHR ''_'') t) 1 of
        Inl e \<Rightarrow> Inl e
      | Inr piece \<Rightarrow>
          (case py_int piece of
             Inl e \<Rightarrow> Inl e
           | Inr lvl \<Rightarrow>
               (case repeat_char (CHR ''#'') lvl of
                  Inl e \<Rightarrow> Inl e
                | Inr hashes \<Rightarrow>
                    (case payload_text r block t of
                       Inl e \<Rightarrow> Inl e
                     | Inr txt \<Rightarrow> Inr (hashes @ '' '' @ txt @ ''\<newline>'')))))"

text \<open>The last branch, for every type that no earlier branch took.\<close>

definition fallback_md :: "(json \<Rightarrow> string) \<Rightarrow> json \<Rightarrow> string \<Rightarrow> string \<Rightarrow> exn + string" where
  "fallback_md r block t pre =
     (case get block t (JObj []) of
        Inl e \<Rightarrow> Inl e
      | Inr inner \<Rightarrow>
          (case inner of
             JObj kvs \<Rightarrow>
               if dict_has kvs ''rich_text'' then
                 (case rt_to_md r (dict_get kvs ''rich_text'' JNull) of
                    Inl e \<Rightarrow> Inl e
                  | Inr txt \<Rightarrow>
                      Inr (if strip txt \<noteq> [] then pre @ txt @ ''\<newline>\<newline>'' else []))
               else Inr []
           | _ \<Rightarrow> Inr []))"

definition block_to_md :: "(json \<Rightarrow> string) \<Rightarrow> json \<Rightarrow> int \<Rightarrow> exn + string" where
  "block_to_md r block indent =
     (case get block ''type'' JNull of
        Inl e \<Rightarrow> Inl e
      | Inr tv \<Rightarrow>
          (let pre = indent_prefix indent
           in case tv of
                JStr t \<Rightarrow>
                  if startswith t ''heading_'' then heading_md r block t
                  else if t = ''paragraph'' then
                    (case payload_text r block t of
                       Inl e \<Rightarrow> Inl e
                     | Inr txt \<Rightarrow>
                         Inr (if strip txt \<noteq> [] then pre @ txt @ ''\<newline>\<newline>''
                              else ''\<newline>''))
                  else if t = ''bulleted_list_item'' \<or> t = ''numbered_list_item'' then
                    (let marker = (if t = ''bulleted_list_item'' then ''-'' else ''1.'')
                     in case payload_text r block t of
                          Inl e \<Rightarrow> Inl e
                        | Inr txt \<Rightarrow> Inr (pre @ marker @ '' '' @ txt @ ''\<newline>''))
                  else if t = ''to_do'' then
                    (case payload_get block t ''checked'' (JBool False) of
                       Inl e \<Rightarrow> Inl e
                     | Inr checked \<Rightarrow>
                         (let box = (if truthy checked then ''x'' else '' '')
                          in case payload_text r block t of
                               Inl e \<Rightarrow> Inl e
                             | Inr txt \<Rightarrow>
                                 Inr (pre @ ''- ['' @ box @ ''] '' @ txt @ ''\<newline>'')))
                  else if t = ''quote'' then
                    (case payload_text r block t of
                       Inl e \<Rightarrow> Inl e
                     | Inr txt \<Rightarrow> Inr (''> '' @ txt @ ''\<newline>\<newline>''))
                  else if t = ''code'' then
                    (case payload_get block t ''language'' (JStr '''') of
                       Inl e \<Rightarrow> Inl e
                     | Inr lang \<Rightarrow>
                         (case payload_text r block t of
                            Inl e \<Rightarrow> Inl e
                          | Inr txt \<Rightarrow>
                              Inr (''```'' @ py_str r lang @ ''\<newline>'' @ txt
                                   @ ''\<newline>```\<newline>\<newline>'')))
                  else if t = ''child_page'' then
                    (case payload_get block t ''title'' (JStr '''') of
                       Inl e \<Rightarrow> Inl e
                     | Inr title \<Rightarrow> Inr (''- '' @ py_str r title @ ''\<newline>''))
                  else fallback_md r block t pre
              | _ \<Rightarrow> Inl AttributeError))"

section \<open>The world around the exporter\<close>

text \<open>
  What the program reads from its environment is fixed for one run and collected in
  \<open>env\<close>: the credential \<^verbatim>\<open>NOTION_KEY\<close> (\<^verbatim>\<open>os.environ.get\<close> gives a string or
  \<^verbatim>\<open>None\<close>), the \<^verbatim>\<open>repr\<close> of lists and dicts, the parsed standard input
  (\<open>None\<close> when \<^verbatim>\<open>json.loads(sys.stdin.read())\<close> raises), the sequence of responses of
  the remote service and the behaviour of the file system. \<open>reply E i\<close> is the decoded
  body that the \<open>i\<close>-th call of \<^verbatim>\<open>http\<close> returns, \<open>None\<close> when \<^verbatim>\<open>urlopen\<close> or the
  decoding raises. \<open>makedirs\<close> and \<open>write_file\<close> give the exception raised, if any, and
  the file system afterwards.

  What the program changes is the \<open>world\<close>: the requests sent so far, the file system and
  the text that the program prints on the error stream (the traceback that the
  interpreter prints for an uncaught exception is not part of it).
\<close>

record request =
  rq_method :: string
  rq_url :: string
  rq_headers :: "(string \<times> string) list"
  rq_body :: "json option"

record 'fs env =
  NOTION_KEY :: "string option"
  repr :: "json \<Rightarrow> string"
  stdin :: "json option"
  reply :: "nat \<Rightarrow> json option"
  makedirs :: "string \<Rightarrow> 'fs \<Rightarrow> exn option \<times> 'fs"
  write_file :: "string \<Rightarrow> string \<Rightarrow> 'fs \<Rightarrow> exn option \<times> 'fs"

record 'fs world =
  sent :: "request list"
  fs :: 'fs
  stderr :: string

definition NOTION_VER :: string where
  "NOTION_VER = ''2025-09-03''"

definition api :: "string \<Rightarrow> string" where
  "api path = ''https://api.notion.com/v1'' @ path"

text \<open>The request that \<^verbatim>\<open>http\<close> builds; \<open>body\<close> is the value it would encode.\<close>

definition request_of :: "'fs env \<Rightarrow> string \<Rightarrow> string \<Rightarrow> json option \<Rightarrow> request" where
  "request_of E meth path data =
     \<lparr> rq_method = meth,
       rq_url = api path,
       rq_headers =
         [(''Authorization'',
           ''Bearer '' @ (case NOTION_KEY E of None \<Rightarrow> ''None'' | Some k \<Rightarrow> k)),
          (''Notion-Version'', NOTION_VER),
          (''Content-Type'', ''application/json'')],
       rq_body = data \<rparr>"

definition http ::
  "'fs env \<Rightarrow> string \<Rightarrow> string \<Rightarrow> json option \<Rightarrow> 'fs world \<Rightarrow> (exn + json) \<times> 'fs world" where
  "http E meth path data w =
     (case reply E (length (sent w)) of
        None \<Rightarrow> Inl TransportError
      | Some res \<Rightarrow> Inr res,
      w\<lparr>sent := sent w @ [request_of E meth path data]\<rparr>)"

section \<open>Tree fetcher\<close>

text \<open>
  The \<^verbatim>\<open>while True\<close> loop of \<^verbatim>\<open>get_all_children\<close>, on its variables \<open>out\<close> and
  \<open>cursor\<close>. The loop has no bound, so the function is partial: \<open>None\<close> is a run that
  never returns.
\<close>

definition children_path :: "(json \<Rightarrow> string) \<Rightarrow> json \<Rightarrow> int \<Rightarrow> json \<Rightarrow> string" where
  "children_path r block_id page_size cursor =
     (let qs = ''?page_size='' @ str_int page_size
               @ (if truthy cursor then ''&start_cursor='' @ py_str r cursor else '''')
      in ''/blocks/'' @ py_str r block_id @ ''/children'' @ qs)"

partial_function (option) children_loop ::
  "'fs env \<Rightarrow> json \<Rightarrow> int \<Rightarrow> json list \<Rightarrow> json \<Rightarrow> 'fs world
     \<Rightarrow> ((exn + json list) \<times> 'fs world) option" where
  "children_loop E block_id page_size out cursor w =
     (case http E ''GET'' (children_path (repr E) block_id page_size cursor) None w of
        (Inl e, w') \<Rightarrow> Some (Inl e, w')
      | (Inr res, w') \<Rightarrow>
          (case res of
             JObj kvs \<Rightarrow>
               (case py_iter (dict_get kvs ''results'' (JArr [])) of
                  Inl e \<Rightarrow> Some (Inl e, w')
                | Inr items \<Rightarrow>
                    if \<not> truthy (dict_get kvs ''has_more'' JNull)
                    then Some (Inr (out @ items), w')
                    else children_loop E block_id page_size (out @ items)
                           (dict_get kvs ''next_cursor'' JNull) w')
           | _ \<Rightarrow> Some (Inl AttributeError, w')))"

definition get_all_children ::
  "'fs env \<Rightarrow> json \<Rightarrow> int \<Rightarrow> 'fs world \<Rightarrow> ((exn + json list) \<times> 'fs world) option" where
  "get_all_children E block_id page_size w = children_loop E block_id page_size [] JNull w"

section \<open>Page exporter\<close>

text \<open>\<^verbatim>\<open>for k in kids: md.append(block_to_md(k, indent=1))\<close>\<close>

fun render_all :: "(json \<Rightarrow> string) \<Rightarrow> json list \<Rightarrow> int \<Rightarrow> exn + string list" where
  "render_all r [] indent = Inr []"
| "render_all r (k # ks) indent =
     (case block_to_md r k indent of
        Inl e \<Rightarrow> Inl e
      | Inr s \<Rightarrow> (case render_all r ks indent of Inl e \<Rightarrow> Inl e | Inr ss \<Rightarrow> Inr (s # ss)))"

text \<open>
  The body of the loop over the blocks of a page: the strings it appends to \<^verbatim>\<open>md\<close>.
  \<^verbatim>\<open>get_all_children\<close> is called with its default page size, 100.
\<close>

definition export_block ::
  "'fs env \<Rightarrow> json \<Rightarrow> 'fs world \<Rightarrow> ((exn + string list) \<times> 'fs world) option" where
  "export_block E b w =
     (case block_to_md (repr E) b 0 of
        Inl e \<Rightarrow> Some (Inl e, w)
      | Inr s \<Rightarrow>
          (case get b ''has_children'' JNull of
             Inl e \<Rightarrow> Some (Inl e, w)
           | Inr hc \<Rightarrow>
               if truthy hc \<and> get b ''type'' JNull \<noteq> Inr (JStr ''child_page'') then
                 (case subscript b ''id'' of
                    Inl e \<Rightarrow> Some (Inl e, w)
                  | Inr bid \<Rightarrow>
                      (case get_all_children E bid 100 w of
                         None \<Rightarrow> None
                       | Some (Inl e, w') \<Rightarrow> Some (Inl e, w')
                       | Some (Inr kids, w') \<Rightarrow>
                           (case render_all (repr E) kids 1 of
                              Inl e \<Rightarrow> Some (Inl e, w')
                            | Inr ss \<Rightarrow> Some (Inr ([s] @ ss @ [''\<newline>'']), w'))))
               else Some (Inr [s], w)))"

fun export_blocks ::
  "'fs env \<Rightarrow> json list \<Rightarrow> 'fs world \<Rightarrow> ((exn + string list) \<times> 'fs world) option" where
  "export_blocks E [] w = Some (Inr [], w)"
| "export_blocks E (b # bs) w =
     (case export_block E b w of
        None \<Rightarrow> None
      | Some (Inl e, w') \<Rightarrow> Some (Inl e, w')
      | Some (Inr ss, w') \<Rightarrow>
          (case export_blocks E bs w' of
             None \<Rightarrow> None
           | Some (Inl e, w'') \<Rightarrow> Some (Inl e, w'')
           | Some (Inr rest, w'') \<Rightarrow> Some (Inr (ss @ rest), w'')))"

text \<open>
  \<^verbatim>\<open>os.path.dirname\<close> (of \<^verbatim>\<open>posixpath\<close>): the path up to its last slash, without the
  trailing slashes unless nothing else is left.
\<close>

definition dirname :: "string \<Rightarrow> string" where
  "dirname p =
     (let head = rev (dropWhile (\<lambda>c. c \<noteq> CHR ''/'') (rev p))
      in if head \<noteq> [] \<and> \<not> list_all (\<lambda>c. c = CHR ''/'') head
         then rev (dropWhile (\<lambda>c. c = CHR ''/'') (rev head))
         else head)"

definition export_page ::
  "'fs env \<Rightarrow> json \<Rightarrow> json \<Rightarrow> json \<Rightarrow> 'fs world \<Rightarrow> ((exn + unit) \<times> 'fs world) option" where
  "export_page E page_id title out_path w =
     (case get_all_children E page_id 100 w of
        None \<Rightarrow> None
      | Some (Inl e, w1) \<Rightarrow> Some (Inl e, w1)
      | Some (Inr blocks, w1) \<Rightarrow>
          (case export_blocks E blocks w1 of
             None \<Rightarrow> None
           | Some (Inl e, w2) \<Rightarrow> Some (Inl e, w2)
           | Some (Inr rest, w2) \<Rightarrow>
               (let md = (''# '' @ py_str (repr E) title @ ''\<newline>\<newline>'') # rest
                in case out_path of
                     JStr p \<Rightarrow>
                       (case makedirs E (dirname p) (fs w2) of
                          (Some e, f) \<Rightarrow> Some (Inl e, w2\<lparr>fs := f\<rparr>)
                        | (None, f) \<Rightarrow>
                            (case write_file E p (rstrip (concat md) @ ''\<newline>'') f of
                               (Some e, f') \<Rightarrow> Some (Inl e, w2\<lparr>fs := f'\<rparr>)
                             | (None, f') \<Rightarrow> Some (Inr (), w2\<lparr>fs := f'\<rparr>)))
                   | _ \<Rightarrow> Some (Inl TypeError, w2))))"

section \<open>Entry point\<close>

text \<open>
  How \<^verbatim>\<open>main\<close> ends: it returns, an exception leaves it uncaught, or \<^verbatim>\<open>sys.exit\<close>
  ends the process with a status. Only \<^verbatim>\<open>main\<close> calls \<^verbatim>\<open>sys.exit\<close>.
\<close>

datatype outcome = Returned | Uncaught exn | Exit int

fun exit_status :: "outcome \<Rightarrow> int" where
  "exit_status Returned = 0"
| "exit_status (Uncaught e) = 1"
| "exit_status (Exit n) = n"

text \<open>The loop of \<^verbatim>\<open>main\<close> over the items of the manifest.\<close>

fun export_entries ::
  "'fs env \<Rightarrow> (string \<times> json) list \<Rightarrow> 'fs world \<Rightarrow> ((exn + unit) \<times> 'fs world) option" where
  "export_entries E [] w = Some (Inr (), w)"
| "export_entries E ((page_id, meta) # rest) w =
     (case subscript meta ''title'' of
        Inl e \<Rightarrow> Some (Inl e, w)
      | Inr title \<Rightarrow>
          (case subscript meta ''path'' of
             Inl e \<Rightarrow> Some (Inl e, w)
           | Inr path \<Rightarrow>
               (case export_page E (JStr page_id) title path w of
                  None \<Rightarrow> None
                | Some (Inl e, w') \<Rightarrow> Some (Inl e, w')
                | Some (Inr u, w') \<Rightarrow> export_entries E rest w')))"

text \<open>\<^verbatim>\<open>not NOTION_KEY\<close> holds for \<^verbatim>\<open>None\<close> and for the empty string.\<close>

definition key_missing :: "string option \<Rightarrow> bool" where
  "key_missing k = (case k of None \<Rightarrow> True | Some s \<Rightarrow> s = [])"

definition main :: "'fs env \<Rightarrow> 'fs world \<Rightarrow> (outcome \<times> 'fs world) option" where
  "main E w =
     (if key_missing (NOTION_KEY E) then
        Some (Exit 2, w\<lparr>stderr := stderr w @ ''Missing NOTION_KEY\<newline>''\<rparr>)
      else
        (case stdin E of
           None \<Rightarrow> Some (Uncaught ValueError, w)
         | Some mapping \<Rightarrow>
             (case mapping of
                JObj kvs \<Rightarrow>
                  (case export_entries E (dict_items kvs) w of
                     None \<Rightarrow> None
                   | Some (Inl e, w') \<Rightarrow> Some (Uncaught e, w')
                   | Some (Inr u, w') \<Rightarrow> Some (Returned, w'))
              | _ \<Rightarrow> Some (Uncaught AttributeError, w))))"

section \<open>Notions used in the statements\<close>

text \<open>
  A style flag is set when \<^verbatim>\<open>ann.get(k)\<close> is true in a condition. \<open>style\<close> and
  \<open>link\<close> are the wraps as the specification words them: marks on both sides of the
  text when the flag is set, and the link construct around the text when \<^verbatim>\<open>href\<close>
  is there.
\<close>

definition flag :: "(string \<times> json) list \<Rightarrow> string \<Rightarrow> bool" where
  "flag ann k = truthy (dict_get ann k JNull)"

definition style :: "bool \<Rightarrow> string \<Rightarrow> string \<Rightarrow> string" where
  "style on mark s = (if on then mark @ s @ mark else s)"

definition link :: "(json \<Rightarrow> string) \<Rightarrow> json \<Rightarrow> string \<Rightarrow> string" where
  "link r href s = (if truthy href then ''['' @ s @ '']('' @ py_str r href @ '')'' else s)"

definition styled :: "(json \<Rightarrow> string) \<Rightarrow> (string \<times> json) list \<Rightarrow> json \<Rightarrow> string \<Rightarrow> string" where
  "styled r ann href s =
     link r href
       (style (flag ann ''strikethrough'') ''~~''
         (style (flag ann ''italic'') ''*''
           (style (flag ann ''bold'') ''**''
             (style (flag ann ''code'') ''`'' s))))"

text \<open>A text that trims to nothing: every character is white space.\<close>

definition blank :: "string \<Rightarrow> bool" where
  "blank s = list_all py_isspace s"

text \<open>
  The type names that \<^verbatim>\<open>block_to_md\<close> compares with \<^verbatim>\<open>==\<close>. A type falls back when
  no branch takes it: it does not start with \<^verbatim>\<open>heading_\<close> and is none of these names.
\<close>

definition known_types :: "string list" where
  "known_types = [''paragraph'', ''bulleted_list_item'', ''numbered_list_item'', ''to_do'',
                  ''quote'', ''code'', ''child_page'']"

definition falls_back :: "string \<Rightarrow> bool" where
  "falls_back t = (\<not> startswith t ''heading_'' \<and> t \<notin> set known_types)"

text \<open>
  A well-formed text run is a dict whose \<^verbatim>\<open>plain_text\<close> is a string (or missing) and
  whose \<^verbatim>\<open>annotations\<close> is a dict (or missing). A well-formed rich text is \<^verbatim>\<open>None\<close>
  or a list of such runs. The payload of a block is in order when it is not a dict or
  its \<^verbatim>\<open>rich_text\<close> is well formed.
\<close>

fun wf_run :: "json \<Rightarrow> bool" where
  "wf_run (JObj rt) =
     ((case dict_get rt ''plain_text'' (JStr '''') of JStr s \<Rightarrow> True | _ \<Rightarrow> False) \<and>
      (case dict_get rt ''annotations'' (JObj []) of JObj ann \<Rightarrow> True | _ \<Rightarrow> False))"
| "wf_run _ = False"

fun wf_rich_text :: "json \<Rightarrow> bool" where
  "wf_rich_text JNull = True"
| "wf_rich_text (JArr rts) = list_all wf_run rts"
| "wf_rich_text _ = False"

definition payload_ok :: "(string \<times> json) list \<Rightarrow> string \<Rightarrow> bool" where
  "payload_ok b t =
     (case dict_get b t (JObj []) of
        JObj p \<Rightarrow> wf_rich_text (dict_get p ''rich_text'' JNull)
      | _ \<Rightarrow> True)"

text \<open>A \<^verbatim>\<open>repr\<close> for the examples, where no list or dict is ever printed.\<close>

definition sample_repr :: "json \<Rightarrow> string" where
  "sample_repr v = ''?''"

text \<open>
  What the loop of \<^verbatim>\<open>get_all_children\<close> reads in a response that is a dict: whether
  \<^verbatim>\<open>results\<close> can be iterated, its items, whether \<^verbatim>\<open>has_more\<close> is true in a
  condition, and \<^verbatim>\<open>next_cursor\<close>. \<open>children_request\<close> is the request of one pass of
  the loop for a cursor.
\<close>

definition page_ok :: "(string \<times> json) list \<Rightarrow> bool" where
  "page_ok p =
     (case py_iter (dict_get p ''results'' (JArr [])) of Inr xs \<Rightarrow> True | Inl e \<Rightarrow> False)"

definition page_results :: "(string \<times> json) list \<Rightarrow> json list" where
  "page_results p =
     (case py_iter (dict_get p ''results'' (JArr [])) of Inr xs \<Rightarrow> xs | Inl e \<Rightarrow> [])"

definition page_more :: "(string \<times> json) list \<Rightarrow> bool" where
  "page_more p = truthy (dict_get p ''has_more'' JNull)"

definition page_cursor :: "(string \<times> json) list \<Rightarrow> json" where
  "page_cursor p = dict_get p ''next_cursor'' JNull"

definition children_request :: "'fs env \<Rightarrow> json \<Rightarrow> int \<Rightarrow> json \<Rightarrow> request" where
  "children_request E block_id page_size cursor =
     request_of E ''GET'' (children_path (repr E) block_id page_size cursor) None"

text \<open>
  A response that lets the loop go on: a dict whose \<^verbatim>\<open>results\<close> can be iterated
  and whose \<^verbatim>\<open>has_more\<close> is true in a condition.
\<close>

definition good_reply :: "json option \<Rightarrow> bool" where
  "good_reply x = (case x of Some (JObj p) \<Rightarrow> page_ok p \<and> page_more p | _ \<Rightarrow> False)"

text \<open>
  An environment and a world for the examples: the responses are those of a list, in
  order, and every later call fails; the file system accepts every call.
\<close>

definition script :: "json list \<Rightarrow> nat \<Rightarrow> json option" where
  "script rs i = (if i < length rs then Some (rs ! i) else None)"

definition sample_env :: "string option \<Rightarrow> (nat \<Rightarrow> json option) \<Rightarrow> unit env" where
  "sample_env key rs =
     \<lparr> NOTION_KEY = key, repr = sample_repr, stdin = None, reply = rs,
       makedirs = (\<lambda>p f. (None, f)), write_file = (\<lambda>p s f. (None, f)) \<rparr>"

definition sample_world :: "unit world" where
  "sample_world = \<lparr> sent = [], fs = (), stderr = [] \<rparr>"

text \<open>Two pages for the examples: the first reports more pages and has no cursor.\<close>

definition sample_pages :: "(string \<times> json) list list" where
  "sample_pages =
     [[(''results'', JArr [JStr ''a'']), (''has_more'', JBool True), (''next_cursor'', JNull)],
      [(''results'', JArr [JStr ''b'']), (''has_more'', JBool False), (''next_cursor'', JNull)]]"

text \<open>Blocks for the examples: a list item with one child, and a child page.\<close>

definition sample_item :: "(string \<times> json) list" where
  "sample_item =
     [(''type'', JStr ''bulleted_list_item''), (''id'', JStr ''b1''),
      (''has_children'', JBool True),
      (''bulleted_list_item'', JObj [(''rich_text'', JArr [JObj [(''plain_text'', JStr ''x'')]])])]"

definition sample_child_page :: "(string \<times> json) list" where
  "sample_child_page =
     [(''type'', JStr ''child_page''), (''id'', JStr ''p2''), (''has_children'', JBool True),
      (''child_page'', JObj [(''title'', JStr ''T'')])]"

definition sample_kid :: json where
  "sample_kid =
     JObj [(''type'', JStr ''paragraph''), (''id'', JStr ''k1''), (''has_children'', JBool True),
           (''paragraph'', JObj [(''rich_text'', JArr [JObj [(''plain_text'', JStr ''y'')]])])]"

definition sample_kids_page :: "(string \<times> json) list" where
  "sample_kids_page = [(''results'', JArr [sample_kid]), (''has_more'', JBool False)]"

text \<open>
  The loop of \<^verbatim>\<open>export_page\<close> over the blocks of a page, in the words of the
  specification. A block wants its children fetched when \<^verbatim>\<open>has_children\<close> is true and
  its type is not \<^verbatim>\<open>child_page\<close>. \<open>renders E bs w ss w'\<close>: from the world \<open>w\<close>, the
  blocks \<open>bs\<close> give the strings \<open>ss\<close> and leave the world \<open>w'\<close>. A block that does not
  want children gives its own text at indentation 0 and leaves the world alone. A block
  that wants them gives its own text, then the text of each of its children at
  indentation 1, then one newline; the children are those that the tree fetcher returns
  for the block's \<^verbatim>\<open>id\<close>, and nothing is fetched for the children themselves.
\<close>

definition wants_children :: "json \<Rightarrow> bool" where
  "wants_children b =
     (case b of
        JObj kvs \<Rightarrow>
          truthy (dict_get kvs ''has_children'' JNull) \<and>
          dict_get kvs ''type'' JNull \<noteq> JStr ''child_page''
      | _ \<Rightarrow> False)"

inductive renders ::
  "'fs env \<Rightarrow> json list \<Rightarrow> 'fs world \<Rightarrow> string list \<Rightarrow> 'fs world \<Rightarrow> bool" for E where
  none: "renders E [] w [] w"
| leaf: "block_to_md (repr E) b 0 = Inr s \<Longrightarrow> \<not> wants_children b \<Longrightarrow>
         renders E bs w ss w' \<Longrightarrow>
         renders E (b # bs) w (s # ss) w'"
| parent: "block_to_md (repr E) b 0 = Inr s \<Longrightarrow> wants_children b \<Longrightarrow>
           subscript b ''id'' = Inr bid \<Longrightarrow>
           get_all_children E bid 100 w = Some (Inr kids, w1) \<Longrightarrow>
           map (\<lambda>k. block_to_md (repr E) k 1) kids = map Inr ks \<Longrightarrow>
           renders E bs w1 ss w' \<Longrightarrow>
           renders E (b # bs) w (s # ks @ [''\<newline>''] @ ss) w'"

code_pred renders .

text \<open>
  An environment for the examples whose file system is the list of the directories
  made and the files written, the last one first, and the responses for a page with two
  blocks: the list item, whose one child is fetched, and the child page.
\<close>

definition file_env :: "(nat \<Rightarrow> json option) \<Rightarrow> (string \<times> string) list env" where
  "file_env rs =
     \<lparr> NOTION_KEY = Some ''k'', repr = sample_repr, stdin = None, reply = rs,
       makedirs = (\<lambda>d f. (None, (''mkdir'', d) # f)),
       write_file = (\<lambda>p s f. (None, (p, s) # f)) \<rparr>"

definition file_world :: "(string \<times> string) list world" where
  "file_world = \<lparr> sent = [], fs = [], stderr = [] \<rparr>"

definition sample_blocks_page :: "(string \<times> json) list" where
  "sample_blocks_page =
     [(''results'', JArr [JObj sample_item, JObj sample_child_page]), (''has_more'', JBool False)]"

definition sample_tree :: "(string \<times> string) list env" where
  "sample_tree = file_env (script [JObj sample_blocks_page, JObj sample_kids_page])"

text \<open>A run for the examples: the credential is set and the manifest has one page, without blocks.\<close>

definition sample_manifest :: json where
  "sample_manifest = JObj [(''pg'', JObj [(''title'', JStr ''T''), (''path'', JStr ''out/a.md'')])]"

definition sample_run :: "unit env" where
  "sample_run =
     (sample_env (Some ''k'') (script [JObj [(''results'', JArr []), (''has_more'', JBool False)]]))
       \<lparr>stdin := Some sample_manifest\<rparr>"



text \<open>Two pages for the examples, the first with a cursor.\<close>

definition sample_two_pages :: "(string \<times> json) list list" where
  "sample_two_pages =
     [[(''results'', JArr [JStr ''a'', JStr ''b'']), (''has_more'', JBool True),
       (''next_cursor'', JStr ''c1'')],
      [(''results'', JArr [JStr ''c'']), (''has_more'', JBool False), (''next_cursor'', JNull)]]"

section \<open>Inline renderer: order of the wraps\<close>

lemma render_run_styled:
  assumes "dict_get rt ''plain_text'' (JStr '''') = JStr s"
    and "dict_get rt ''annotations'' (JObj []) = JObj ann"
  shows "render_run r (JObj rt) = Inr (JStr (styled r ann (dict_get rt ''href'' JNull) s))"
  using assms by (simp add: wrap_def styled_def style_def link_def flag_def)

lemma rt_to_md_single:
  assumes "render_run r rt = Inr (JStr s)"
  shows "rt_to_md r (JArr [rt]) = Inr s"
  using assms by (simp add: rt_to_md_def)



text \<open>
  Claim C8. For a text run with no flag set and no \<^verbatim>\<open>href\<close>, rendering the list
  that holds only this run gives its \<^verbatim>\<open>plain_text\<close> unchanged.
\<close>

theorem rt_to_md_plain_identity:
  assumes "dict_get rt ''plain_text'' (JStr '''') = JStr s"
    and "dict_get rt ''annotations'' (JObj []) = JObj ann"
    and "\<not> flag ann ''bold''" and "\<not> flag ann ''italic''"
    and "\<not> flag ann ''strikethrough''" and "\<not> flag ann ''code''"
    and "\<not> truthy (dict_get rt ''href'' JNull)"
  shows "rt_to_md r (JArr [JObj rt]) = Inr s"
  using render_run_styled [OF assms(1,2), of r] assms(3-)
  by (simp add: rt_to_md_single styled_def style_def link_def)

theorem rt_to_md_plain_identity_witness:
  "rt_to_md sample_repr (JArr [JObj [(''plain_text'', JStr ''a *b*''),
      (''annotations'', JObj [(''bold'', JBool False), (''italic'', JBool False),
         (''strikethrough'', JBool False), (''code'', JBool False)]),
      (''href'', JNull)]])
   = Inr ''a *b*''"
  using rt_to_md_plain_identity [of "[(''plain_text'', JStr ''a *b*''),
      (''annotations'', JObj [(''bold'', JBool False), (''italic'', JBool False),
         (''strikethrough'', JBool False), (''code'', JBool False)]),
      (''href'', JNull)]" "''a *b*''" "[(''bold'', JBool False), (''italic'', JBool False),
         (''strikethrough'', JBool False), (''code'', JBool False)]" sample_repr]
  by (simp add: dict_get_def flag_def)

section \<open>Block renderer: paragraphs, headings and the last branch\<close>

lemma strip_empty_iff: "strip s = [] \<longleftrightarrow> blank s"
proof
  assume "strip s = []"
  then have e: "dropWhile py_isspace (rev (dropWhile py_isspace s)) = []"
    by (simp add: strip_def rstrip_def)
  show "blank s"
  proof (cases "dropWhile py_isspace s")
    case Nil
    then show ?thesis by (simp add: blank_def list_all_iff)
  next
    case (Cons c cs)
    then have "\<not> py_isspace c" using hd_dropWhile [of py_isspace s] by auto
    moreover have "c \<in> set (rev (dropWhile py_isspace s))" using Cons by simp
    ultimately show ?thesis using e by auto
  qed
next
  assume "blank s"
  then have d: "dropWhile py_isspace s = []"
    by (simp add: blank_def list_all_iff)
  show "strip s = []"
    unfolding strip_def rstrip_def d by simp
qed

lemma payload_text_eq:
  assumes "subscript (JObj b) t = Inr (JObj p)"
  shows "payload_text r (JObj b) t = rt_to_md r (dict_get p ''rich_text'' JNull)"
  using assms by (simp add: payload_text_def payload_get_def)

lemma block_to_md_paragraph:
  assumes "dict_get b ''type'' JNull = JStr ''paragraph''"
    and "payload_text r (JObj b) ''paragraph'' = Inr s"
  shows "block_to_md r (JObj b) indent =
           Inr (if blank s then ''\<newline>'' else indent_prefix indent @ s @ ''\<newline>\<newline>'')"
  using assms by (simp add: block_to_md_def startswith_def strip_empty_iff)

text \<open>
  Claim C5. At every indentation level, a paragraph whose rendered rich text is only
  white space renders as the single newline, with no indentation prefix; a paragraph
  whose rendered text is not blank renders as the prefix, the text and two newlines.
\<close>

theorem paragraph_md:
  assumes "dict_get b ''type'' JNull = JStr ''paragraph''"
    and "subscript (JObj b) ''paragraph'' = Inr (JObj p)"
    and "rt_to_md r (dict_get p ''rich_text'' JNull) = Inr s"
  shows "block_to_md r (JObj b) indent =
           Inr (if blank s then ''\<newline>'' else indent_prefix indent @ s @ ''\<newline>\<newline>'')"
  using assms by (simp add: block_to_md_paragraph payload_text_eq)

theorem paragraph_md_witness:
  "block_to_md sample_repr
     (JObj [(''type'', JStr ''paragraph''),
            (''paragraph'', JObj [(''rich_text'', JArr [JObj [(''plain_text'', JStr ''  '')]])])]) 3
     = Inr ''\<newline>''
   \<and> block_to_md sample_repr
     (JObj [(''type'', JStr ''paragraph''),
            (''paragraph'', JObj [(''rich_text'', JArr [JObj [(''plain_text'', JStr ''ok'')]])])]) 1
     = Inr ''  ok\<newline>\<newline>''"
  using paragraph_md [of
      "[(''type'', JStr ''paragraph''),
        (''paragraph'', JObj [(''rich_text'', JArr [JObj [(''plain_text'', JStr ''  '')]])])]"
      "[(''rich_text'', JArr [JObj [(''plain_text'', JStr ''  '')]])]" sample_repr "''  ''" 3]
    paragraph_md [of
      "[(''type'', JStr ''paragraph''),
        (''paragraph'', JObj [(''rich_text'', JArr [JObj [(''plain_text'', JStr ''ok'')]])])]"
      "[(''rich_text'', JArr [JObj [(''plain_text'', JStr ''ok'')]])]" sample_repr "''ok''" 1]
  by (simp add: dict_get_def rt_to_md_def wrap_def blank_def py_isspace_def indent_prefix_def)

lemma falls_back_dispatch:
  assumes "dict_get b ''type'' JNull = JStr t" and "falls_back t"
  shows "block_to_md r (JObj b) indent = fallback_md r (JObj b) t (indent_prefix indent)"
  using assms by (simp add: block_to_md_def falls_back_def known_types_def)

text \<open>
  Claim C6. For a block whose type no branch recognizes: when the payload is a dict
  with a \<^verbatim>\<open>rich_text\<close> field, a rendered text that is blank gives the empty string
  (not a newline, unlike a paragraph) and a text that is not blank gives the prefix,
  the text and two newlines; when the payload has no \<^verbatim>\<open>rich_text\<close> field, the result
  is the empty string.
\<close>

theorem fallback_md_cases:
  assumes "dict_get b ''type'' JNull = JStr t" and "falls_back t"
  shows "(\<forall>p s. dict_get b t (JObj []) = JObj p \<and> dict_has p ''rich_text'' \<and>
            rt_to_md r (dict_get p ''rich_text'' JNull) = Inr s \<longrightarrow>
            block_to_md r (JObj b) indent =
              Inr (if blank s then [] else indent_prefix indent @ s @ ''\<newline>\<newline>''))
       \<and> ((\<forall>p. dict_get b t (JObj []) = JObj p \<longrightarrow> \<not> dict_has p ''rich_text'') \<longrightarrow>
            block_to_md r (JObj b) indent = Inr [])"
  using assms
  by (auto simp: falls_back_dispatch fallback_md_def strip_empty_iff split: json.splits)

theorem fallback_md_cases_witness:
  "block_to_md sample_repr
     (JObj [(''type'', JStr ''callout''),
            (''callout'', JObj [(''rich_text'', JArr [JObj [(''plain_text'', JStr '' '')]])])]) 1
     = Inr []
   \<and> block_to_md sample_repr
     (JObj [(''type'', JStr ''callout''),
            (''callout'', JObj [(''rich_text'', JArr [JObj [(''plain_text'', JStr ''a'')]])])]) 1
     = Inr ''  a\<newline>\<newline>''
   \<and> block_to_md sample_repr
     (JObj [(''type'', JStr ''divider''), (''divider'', JObj [])]) 1
     = Inr []"
  using fallback_md_cases [of
      "[(''type'', JStr ''callout''),
        (''callout'', JObj [(''rich_text'', JArr [JObj [(''plain_text'', JStr '' '')]])])]"
      "''callout''" sample_repr 1]
    fallback_md_cases [of
      "[(''type'', JStr ''callout''),
        (''callout'', JObj [(''rich_text'', JArr [JObj [(''plain_text'', JStr ''a'')]])])]"
      "''callout''" sample_repr 1]
    fallback_md_cases [of
      "[(''type'', JStr ''divider''), (''divider'', JObj [])]" "''divider''" sample_repr 1]
  by (simp add: dict_get_def dict_has_def falls_back_def startswith_def known_types_def
      rt_to_md_def wrap_def blank_def py_isspace_def indent_prefix_def)

























lemma wf_run_renders: "wf_run rt \<Longrightarrow> \<exists>s. render_run r rt = Inr (JStr s)"
proof (cases rt)
  case (JObj kvs)
  assume "wf_run rt"
  then obtain s ann where "dict_get kvs ''plain_text'' (JStr '''') = JStr s"
    and "dict_get kvs ''annotations'' (JObj []) = JObj ann"
    using JObj by (auto split: json.splits)
  then show ?thesis using render_run_styled [of kvs s ann r] JObj by blast
qed auto

lemma wf_runs_render:
  "list_all wf_run rts \<Longrightarrow> \<exists>ss. render_runs r rts = Inr (map JStr ss)"
proof (induction rts)
  case Nil
  then show ?case by simp
next
  case (Cons rt rts)
  then obtain s where s: "render_run r rt = Inr (JStr s)" using wf_run_renders by auto
  from Cons obtain ss where "render_runs r rts = Inr (map JStr ss)" by auto
  then have "render_runs r (rt # rts) = Inr (map JStr (s # ss))" using s by simp
  then show ?case by blast
qed

lemma join_strings: "join (map JStr ss) = Inr (concat ss)"
  by (induction ss) auto

lemma wf_rich_text_renders: "wf_rich_text v \<Longrightarrow> \<exists>s. rt_to_md r v = Inr s"
proof (cases v)
  case (JArr rts)
  assume "wf_rich_text v"
  then obtain ss where "render_runs r rts = Inr (map JStr ss)"
    using JArr wf_runs_render by auto
  then show ?thesis using JArr by (cases rts) (auto simp: rt_to_md_def join_strings)
qed (auto simp: rt_to_md_def)

text \<open>
  Claim C4, as amended. The claim that a block of an unknown type never raises, for
  every type string and payload, does not hold: the heading branch takes every type
  with the prefix \<^verbatim>\<open>heading_\<close> and \<^verbatim>\<open>int\<close> raises on what is not a number, and the
  last branch hands the payload's rich text to the inline renderer, which raises on a
  run that is not well formed. What holds: for a type that falls back and a payload in
  order, \<^verbatim>\<open>block_to_md\<close> returns, and the result is the empty string or the prefix,
  the rendered rich text of the payload and two newlines.
\<close>

theorem fallback_never_raises:
  assumes "dict_get b ''type'' JNull = JStr t" and "falls_back t" and "payload_ok b t"
  shows "\<exists>s. block_to_md r (JObj b) indent = Inr s \<and>
           (s = [] \<or>
            (\<exists>p tx. dict_get b t (JObj []) = JObj p \<and> dict_has p ''rich_text'' \<and>
               rt_to_md r (dict_get p ''rich_text'' JNull) = Inr tx \<and>
               s = indent_prefix indent @ tx @ ''\<newline>\<newline>''))"
proof (cases "dict_get b t (JObj [])")
  case (JObj p)
  then obtain tx where "rt_to_md r (dict_get p ''rich_text'' JNull) = Inr tx"
    using assms(3) wf_rich_text_renders by (auto simp: payload_ok_def)
  then show ?thesis
    using assms(1,2) JObj by (simp add: falls_back_dispatch fallback_md_def)
qed (use assms in \<open>simp_all add: falls_back_dispatch fallback_md_def\<close>)

theorem fallback_never_raises_witness:
  "\<exists>s. block_to_md sample_repr
     (JObj [(''type'', JStr ''callout''),
            (''callout'', JObj [(''rich_text'', JArr [JObj [(''plain_text'', JStr ''a'')]])])]) 1
     = Inr s"
  using fallback_never_raises [of
      "[(''type'', JStr ''callout''),
        (''callout'', JObj [(''rich_text'', JArr [JObj [(''plain_text'', JStr ''a'')]])])]"
      "''callout''" sample_repr 1]
  by (auto simp: dict_get_def falls_back_def startswith_def known_types_def payload_ok_def)

text \<open>
  Two blocks of an unknown type on which \<^verbatim>\<open>block_to_md\<close> raises. The type
  \<^verbatim>\<open>heading_x\<close> is taken by the heading branch, where \<^verbatim>\<open>int('x')\<close> raises
  ValueError. The type \<^verbatim>\<open>callout\<close> reaches the last branch, and its run has
  \<^verbatim>\<open>annotations\<close> \<^verbatim>\<open>None\<close>, on which \<^verbatim>\<open>ann.get\<close> raises AttributeError.
\<close>

theorem unknown_type_raises:
  "block_to_md sample_repr
     (JObj [(''type'', JStr ''heading_x''), (''heading_x'', JObj [(''rich_text'', JArr [])])]) 0
     = Inl ValueError
   \<and> block_to_md sample_repr
     (JObj [(''type'', JStr ''callout''),
            (''callout'', JObj [(''rich_text'',
               JArr [JObj [(''plain_text'', JStr ''a''), (''annotations'', JNull)]])])]) 0
     = Inl AttributeError"
  by (simp add: block_to_md_def startswith_def heading_md_def index_def py_int_def
      int_space_def unsigned_int_def is_digit_def dict_get_def fallback_md_def dict_has_def
      rt_to_md_def)

section \<open>Tree fetcher: pages and requests\<close>

lemma loop_more:
  assumes "reply E (length (sent w)) = Some (JObj p)" and "page_ok p" and "page_more p"
  shows "children_loop E bid psz out cursor w =
           children_loop E bid psz (out @ page_results p) (page_cursor p)
             (w\<lparr>sent := sent w @ [children_request E bid psz cursor]\<rparr>)"
  using assms
  by (subst children_loop.simps)
     (simp add: http_def page_ok_def page_more_def page_results_def page_cursor_def
        children_request_def split: sum.splits)

lemma loop_last:
  assumes "reply E (length (sent w)) = Some (JObj p)" and "page_ok p" and "\<not> page_more p"
  shows "children_loop E bid psz out cursor w =
           Some (Inr (out @ page_results p),
                 w\<lparr>sent := sent w @ [children_request E bid psz cursor]\<rparr>)"
  using assms
  by (subst children_loop.simps)
     (simp add: http_def page_ok_def page_more_def page_results_def page_cursor_def
        children_request_def split: sum.splits)

lemma loop_run:
  assumes "\<forall>i<length pgs. reply E (length (sent w) + i) = Some (JObj (pgs ! i))"
    and "list_all page_ok pgs" and "list_all page_more pgs"
  shows "children_loop E bid psz out cursor w =
           children_loop E bid psz (out @ concat (map page_results pgs))
             (last (cursor # map page_cursor pgs))
             (w\<lparr>sent := sent w @ map (children_request E bid psz)
                                  (butlast (cursor # map page_cursor pgs))\<rparr>)"
  using assms
proof (induction pgs arbitrary: w out cursor)
  case Nil
  then show ?case by simp
next
  case (Cons p pgs)
  let ?w = "w\<lparr>sent := sent w @ [children_request E bid psz cursor]\<rparr>"
  have r0: "reply E (length (sent w)) = Some (JObj p)"
    using Cons.prems(1) by auto
  have rs: "\<forall>i<length pgs. reply E (length (sent ?w) + i) = Some (JObj (pgs ! i))"
  proof (intro allI impI)
    fix i assume "i < length pgs"
    then have "reply E (length (sent w) + Suc i) = Some (JObj ((p # pgs) ! Suc i))"
      using Cons.prems(1) by (metis length_Cons Suc_less_eq)
    then show "reply E (length (sent ?w) + i) = Some (JObj (pgs ! i))" by simp
  qed
  have "children_loop E bid psz out cursor w =
          children_loop E bid psz (out @ page_results p) (page_cursor p) ?w"
    using loop_more [OF r0] Cons.prems(2,3) by simp
  also have "\<dots> = children_loop E bid psz ((out @ page_results p) @ concat (map page_results pgs))
             (last (page_cursor p # map page_cursor pgs))
             (?w\<lparr>sent := sent ?w @ map (children_request E bid psz)
                                  (butlast (page_cursor p # map page_cursor pgs))\<rparr>)"
    using Cons.IH [OF rs] Cons.prems(2,3) by simp
  finally show ?case by simp
qed

lemma children_path_falsy:
  "\<not> truthy c \<Longrightarrow> children_path r bid psz c = children_path r bid psz JNull"
  by (simp add: children_path_def)

lemma children_request_falsy:
  "\<not> truthy c \<Longrightarrow> children_request E bid psz c = children_request E bid psz JNull"
  using children_path_falsy [of c "repr E" bid psz] by (simp add: children_request_def)

lemma map_butlast_last: "cs \<noteq> [] \<Longrightarrow> map f (butlast cs) @ [f (last cs)] = map f cs"
  by (cases cs rule: rev_cases) auto

lemma get_all_children_snoc:
  assumes rq: "\<forall>i<length qs. reply E (length (sent w) + i) = Some (JObj (qs ! i))"
    and rp: "reply E (length (sent w) + length qs) = Some (JObj p)"
    and ok: "list_all page_ok qs" "list_all page_more qs" "page_ok p" "\<not> page_more p"
  shows "get_all_children E bid psz w =
           Some (Inr (concat (map page_results (qs @ [p]))),
                 w\<lparr>sent := sent w @ map (children_request E bid psz)
                                      (JNull # map page_cursor qs)\<rparr>)"
proof -
  define cs where "cs = JNull # map page_cursor qs"
  define w1 where "w1 = w\<lparr>sent := sent w @ map (children_request E bid psz) (butlast cs)\<rparr>"
  have ne: "cs \<noteq> []" by (simp add: cs_def)
  have len: "length (sent w1) = length (sent w) + length qs"
    by (simp add: w1_def cs_def)
  have rp1: "reply E (length (sent w1)) = Some (JObj p)"
    using rp len by simp
  have 1: "children_loop E bid psz [] JNull w =
          children_loop E bid psz ([] @ concat (map page_results qs)) (last cs) w1"
    unfolding cs_def w1_def by (rule loop_run [OF rq ok(1,2)])
  have 2: "children_loop E bid psz ([] @ concat (map page_results qs)) (last cs) w1 =
          Some (Inr (([] @ concat (map page_results qs)) @ page_results p),
                 w1\<lparr>sent := sent w1 @ [children_request E bid psz (last cs)]\<rparr>)"
    by (rule loop_last [OF rp1 ok(3,4)])
  have 3: "w1\<lparr>sent := sent w1 @ [children_request E bid psz (last cs)]\<rparr> =
           w\<lparr>sent := sent w @ map (children_request E bid psz) cs\<rparr>"
    using map_butlast_last [OF ne, of "children_request E bid psz"] by (simp add: w1_def)
  show ?thesis
    unfolding get_all_children_def 1 2 3 by (simp add: cs_def)
qed

lemma get_all_children_run:
  assumes "\<forall>i<length pgs. reply E (length (sent w) + i) = Some (JObj (pgs ! i))"
    and "pgs \<noteq> []" and "list_all page_ok pgs"
    and "list_all page_more (butlast pgs)" and "\<not> page_more (last pgs)"
  shows "get_all_children E bid psz w =
           Some (Inr (concat (map page_results pgs)),
                 w\<lparr>sent := sent w @ map (children_request E bid psz)
                                      (JNull # map page_cursor (butlast pgs))\<rparr>)"
proof -
  obtain qs p where pgs: "pgs = qs @ [p]"
    using assms(2) by (cases pgs rule: rev_cases) auto
  have rq: "\<forall>i<length qs. reply E (length (sent w) + i) = Some (JObj (qs ! i))"
  proof (intro allI impI)
    fix i assume i: "i < length qs"
    then have "i < length pgs" using pgs by simp
    then have "reply E (length (sent w) + i) = Some (JObj (pgs ! i))" using assms(1) by blast
    then show "reply E (length (sent w) + i) = Some (JObj (qs ! i))"
      using i pgs by (simp add: nth_append)
  qed
  have "length qs < length pgs" using pgs by simp
  then have "reply E (length (sent w) + length qs) = Some (JObj (pgs ! length qs))"
    using assms(1) by blast
  then have rp: "reply E (length (sent w) + length qs) = Some (JObj p)"
    using pgs by simp
  have ok: "list_all page_ok qs" "list_all page_more qs" "page_ok p" "\<not> page_more p"
    using assms(3-5) pgs by auto
  show ?thesis
    using get_all_children_snoc [OF rq rp ok] pgs by simp
qed

lemma loop_body_cases:
  assumes "(case http E ''GET'' path None w of
              (Inl e, w') \<Rightarrow> Some (Inl e, w')
            | (Inr res, w') \<Rightarrow>
                (case res of
                   JObj kvs \<Rightarrow>
                     (case py_iter (dict_get kvs ''results'' (JArr [])) of
                        Inl e \<Rightarrow> Some (Inl e, w')
                      | Inr items \<Rightarrow>
                          if \<not> truthy (dict_get kvs ''has_more'' JNull)
                          then Some (Inr (out @ items), w')
                          else f (out @ items) (dict_get kvs ''next_cursor'' JNull) w')
                 | _ \<Rightarrow> Some (Inl AttributeError, w'))) = Some y"
  shows "(\<not> good_reply (reply E (length (sent w))) \<and>
            snd y = w\<lparr>sent := sent w @ [request_of E ''GET'' path None]\<rparr>)
       \<or> (good_reply (reply E (length (sent w))) \<and>
            (\<exists>out' c'. f out' c' (w\<lparr>sent := sent w @ [request_of E ''GET'' path None]\<rparr>) = Some y))"
proof (cases "reply E (length (sent w))")
  case None
  then show ?thesis using assms by (auto simp: http_def good_reply_def)
next
  case (Some res)
  show ?thesis
  proof (cases res)
    case (JObj kvs)
    show ?thesis
    proof (cases "py_iter (dict_get kvs ''results'' (JArr []))")
      case (Inl e)
      then show ?thesis
        using assms Some JObj by (auto simp: http_def good_reply_def page_ok_def)
    next
      case (Inr items)
      show ?thesis
      proof (cases "truthy (dict_get kvs ''has_more'' JNull)")
        case True
        then have "f (out @ items) (dict_get kvs ''next_cursor'' JNull)
                     (w\<lparr>sent := sent w @ [request_of E ''GET'' path None]\<rparr>) = Some y"
          using assms Some JObj Inr by (simp add: http_def)
        moreover have "good_reply (reply E (length (sent w)))"
          using Some JObj Inr True by (simp add: good_reply_def page_ok_def page_more_def)
        ultimately show ?thesis by blast
      next
        case False
        then show ?thesis
          using assms Some JObj Inr by (auto simp: http_def good_reply_def page_more_def)
      qed
    qed
  qed (use assms Some in \<open>auto simp: http_def good_reply_def\<close>)
qed

lemma children_loop_returns:
  assumes a: "children_loop E bid psz out cursor w = Some y"
  shows "\<exists>i. \<not> good_reply (reply E (length (sent w) + i))"
proof (rule children_loop.raw_induct
    [where P = "\<lambda>E bid psz out cursor w y. \<exists>i. \<not> good_reply (reply E (length (sent w) + i))",
      OF _ a], goal_cases)
  case (1 loop E bid psz out cursor w y)
  from loop_body_cases [OF 1(2)] show ?case
  proof (elim disjE conjE exE)
    assume "\<not> good_reply (reply E (length (sent w)))"
    then have "\<not> good_reply (reply E (length (sent w) + 0))" by simp
    then show ?thesis by blast
  next
    fix out' c'
    let ?w = "w\<lparr>sent := sent w @ [request_of E ''GET'' (children_path (repr E) bid psz cursor) None]\<rparr>"
    assume "loop E bid psz out' c' ?w = Some y"
    then obtain i where "\<not> good_reply (reply E (length (sent ?w) + i))"
      using 1(1) by blast
    then have "\<not> good_reply (reply E (length (sent w) + Suc i))" by simp
    then show ?thesis by blast
  qed
qed

lemma children_loop_sent:
  assumes a: "children_loop E bid psz out cursor w = Some y"
  shows "\<exists>cs. cs \<noteq> [] \<and> snd y = w\<lparr>sent := sent w @ map (children_request E bid psz) cs\<rparr>"
proof (rule children_loop.raw_induct
    [where P = "\<lambda>E bid psz out cursor w y.
        \<exists>cs. cs \<noteq> [] \<and> snd y = w\<lparr>sent := sent w @ map (children_request E bid psz) cs\<rparr>",
      OF _ a], goal_cases)
  case (1 loop E bid psz out cursor w y)
  let ?w = "w\<lparr>sent := sent w @ [children_request E bid psz cursor]\<rparr>"
  from loop_body_cases [OF 1(2)]
  have "snd y = ?w \<or> (\<exists>out' c'. loop E bid psz out' c' ?w = Some y)"
    unfolding children_request_def by blast
  then show ?case
  proof
    assume "snd y = ?w"
    then have "snd y = w\<lparr>sent := sent w @ map (children_request E bid psz) [cursor]\<rparr>" by simp
    then show ?thesis by blast
  next
    assume "\<exists>out' c'. loop E bid psz out' c' ?w = Some y"
    then obtain cs where "cs \<noteq> []"
      and "snd y = ?w\<lparr>sent := sent ?w @ map (children_request E bid psz) cs\<rparr>"
      using 1(1) by blast
    then have "snd y = w\<lparr>sent := sent w @ map (children_request E bid psz) (cursor # cs)\<rparr>"
      by simp
    then show ?thesis by blast
  qed
qed

lemma children_request_explicit:
  "children_request E bid psz c =
     \<lparr> rq_method = ''GET'',
       rq_url = ''https://api.notion.com/v1/blocks/'' @ py_str (repr E) bid
                @ ''/children?page_size='' @ str_int psz
                @ (if truthy c then ''&start_cursor='' @ py_str (repr E) c else []),
       rq_headers =
         [(''Authorization'',
           ''Bearer '' @ (case NOTION_KEY E of None \<Rightarrow> ''None'' | Some k \<Rightarrow> k)),
          (''Notion-Version'', ''2025-09-03''),
          (''Content-Type'', ''application/json'')],
       rq_body = None \<rparr>"
  by (simp add: children_request_def request_of_def children_path_def api_def NOTION_VER_def)

text \<open>
  Claim C3. For every block id and every sequence of responses in which each response
  but the last reports more pages, \<^verbatim>\<open>get_all_children\<close> returns the results of the
  pages in the order received, one after the other, and sends one request for each
  page: the first without a cursor, each later one with the \<^verbatim>\<open>next_cursor\<close> of the
  page before as \<^verbatim>\<open>start_cursor\<close> in its URL. When the first response reports no
  more pages, the result is that page's results and the only request is the first one.
\<close>

theorem get_all_children_concat:
  assumes "\<forall>i<length pgs. reply E (length (sent w) + i) = Some (JObj (pgs ! i))"
    and "pgs \<noteq> []" and "list_all page_ok pgs"
    and "list_all page_more (butlast pgs)" and "\<not> page_more (last pgs)"
  shows "get_all_children E bid psz w =
           Some (Inr (concat (map page_results pgs)),
                 w\<lparr>sent := sent w @ map (children_request E bid psz)
                                      (JNull # map page_cursor (butlast pgs))\<rparr>)
       \<and> (\<forall>c. children_request E bid psz c =
             \<lparr> rq_method = ''GET'',
               rq_url = ''https://api.notion.com/v1/blocks/'' @ py_str (repr E) bid
                        @ ''/children?page_size='' @ str_int psz
                        @ (if truthy c then ''&start_cursor='' @ py_str (repr E) c else []),
               rq_headers =
                 [(''Authorization'',
                   ''Bearer '' @ (case NOTION_KEY E of None \<Rightarrow> ''None'' | Some k \<Rightarrow> k)),
                  (''Notion-Version'', ''2025-09-03''),
                  (''Content-Type'', ''application/json'')],
               rq_body = None \<rparr>)
       \<and> (\<not> page_more (hd pgs) \<longrightarrow>
            get_all_children E bid psz w =
              Some (Inr (page_results (hd pgs)),
                    w\<lparr>sent := sent w @ [children_request E bid psz JNull]\<rparr>))"
proof (intro conjI impI allI)
  show run: "get_all_children E bid psz w =
           Some (Inr (concat (map page_results pgs)),
                 w\<lparr>sent := sent w @ map (children_request E bid psz)
                                      (JNull # map page_cursor (butlast pgs))\<rparr>)"
    by (rule get_all_children_run [OF assms])
  assume first: "\<not> page_more (hd pgs)"
  obtain p qs where pgs: "pgs = p # qs" using assms(2) by (cases pgs) auto
  have "qs = []"
  proof (rule ccontr)
    assume "qs \<noteq> []"
    then have "page_more p" using assms(4) pgs by simp
    then show False using first pgs by simp
  qed
  then show "get_all_children E bid psz w =
              Some (Inr (page_results (hd pgs)),
                    w\<lparr>sent := sent w @ [children_request E bid psz JNull]\<rparr>)"
    using run pgs by simp
qed (rule children_request_explicit)

theorem get_all_children_concat_witness:
  "\<exists>w'. get_all_children (sample_env (Some ''k'') (script (map JObj sample_two_pages)))
           (JStr ''blk'') 100 sample_world
         = Some (Inr [JStr ''a'', JStr ''b'', JStr ''c''], w')
       \<and> map rq_url (sent w') =
           [''https://api.notion.com/v1/blocks/blk/children?page_size=100'',
            ''https://api.notion.com/v1/blocks/blk/children?page_size=100&start_cursor=c1'']
       \<and> map rq_method (sent w') = [''GET'', ''GET'']"
proof -
  let ?E = "sample_env (Some ''k'') (script (map JObj sample_two_pages))"
  have h: "\<forall>i<length sample_two_pages.
             reply ?E (length (sent sample_world) + i) = Some (JObj (sample_two_pages ! i))"
    "sample_two_pages \<noteq> []" "list_all page_ok sample_two_pages"
    "list_all page_more (butlast sample_two_pages)" "\<not> page_more (last sample_two_pages)"
    by (simp_all add: sample_two_pages_def sample_env_def sample_world_def script_def
        page_ok_def page_more_def dict_get_def less_Suc_eq all_conj_distrib)
  note t = get_all_children_concat [OF h, of "JStr ''blk''" 100]
  have r: "concat (map page_results sample_two_pages) = [JStr ''a'', JStr ''b'', JStr ''c'']"
    by (simp add: sample_two_pages_def page_results_def dict_get_def)
  have c: "JNull # map page_cursor (butlast sample_two_pages) = [JNull, JStr ''c1'']"
    by (simp add: sample_two_pages_def page_cursor_def dict_get_def)
  have n: "str_int 100 = ''100''"
    by (simp add: str_int_def str_nat.simps digit_char_def)
  have u: "rq_url (children_request ?E (JStr ''blk'') 100 JNull)
             = ''https://api.notion.com/v1/blocks/blk/children?page_size=100''"
    "rq_url (children_request ?E (JStr ''blk'') 100 (JStr ''c1''))
             = ''https://api.notion.com/v1/blocks/blk/children?page_size=100&start_cursor=c1''"
    "rq_method (children_request ?E (JStr ''blk'') 100 JNull) = ''GET''"
    "rq_method (children_request ?E (JStr ''blk'') 100 (JStr ''c1'')) = ''GET''"
    using t [THEN conjunct2, THEN conjunct1] by (simp_all add: n)
  show ?thesis
    using t [THEN conjunct1] unfolding r c by (simp add: u sample_world_def)
qed

lemma children_request_url:
  "rq_url (children_request E bid psz JNull) =
     api (''/blocks/'' @ py_str (repr E) bid @ ''/children?page_size='' @ str_int psz)"
  by (simp add: children_request_def request_of_def children_path_def)

lemma get_all_children_diverges:
  assumes "\<forall>i. good_reply (reply E (length (sent w) + i))"
  shows "get_all_children E bid psz w = None"
proof (cases "get_all_children E bid psz w")
  case (Some y)
  then have "children_loop E bid psz [] JNull w = Some y"
    by (simp add: get_all_children_def)
  then show ?thesis using children_loop_returns assms by blast
qed simp

text \<open>
  Claim C10. \<^verbatim>\<open>get_all_children\<close> sends one request in each pass of its loop and
  returns at the first response whose \<^verbatim>\<open>has_more\<close> is false in a condition, so the
  number of requests is the position of that response. After a response with
  \<^verbatim>\<open>has_more\<close> true and no \<^verbatim>\<open>next_cursor\<close>, the next request is the first
  request again, without \<^verbatim>\<open>start_cursor\<close>. When every response reports more
  pages, the function never returns.
\<close>

theorem get_all_children_fetch_count:
  "(\<forall>pgs. pgs \<noteq> [] \<and>
        (\<forall>i<length pgs. reply E (length (sent w) + i) = Some (JObj (pgs ! i))) \<and>
        list_all page_ok pgs \<and> list_all page_more (butlast pgs) \<and> \<not> page_more (last pgs) \<longrightarrow>
        (\<exists>res w'. get_all_children E bid psz w = Some (res, w') \<and>
           length (sent w') = length (sent w) + length pgs \<and>
           (\<forall>i. Suc i < length pgs \<and> \<not> truthy (page_cursor (pgs ! i)) \<longrightarrow>
              sent w' ! (length (sent w) + Suc i) = children_request E bid psz JNull)))
   \<and> sent (snd (http E ''GET'' (children_path (repr E) bid psz JNull) None w))
        = sent w @ [children_request E bid psz JNull]
   \<and> rq_url (children_request E bid psz JNull) =
        api (''/blocks/'' @ py_str (repr E) bid @ ''/children?page_size='' @ str_int psz)
   \<and> ((\<forall>i. good_reply (reply E (length (sent w) + i))) \<longrightarrow>
        get_all_children E bid psz w = None)"
proof (intro conjI allI impI)
  fix pgs
  assume h: "pgs \<noteq> [] \<and>
        (\<forall>i<length pgs. reply E (length (sent w) + i) = Some (JObj (pgs ! i))) \<and>
        list_all page_ok pgs \<and> list_all page_more (butlast pgs) \<and> \<not> page_more (last pgs)"
  define cs where "cs = JNull # map page_cursor (butlast pgs)"
  define w' where "w' = w\<lparr>sent := sent w @ map (children_request E bid psz) cs\<rparr>"
  have run: "get_all_children E bid psz w = Some (Inr (concat (map page_results pgs)), w')"
    unfolding w'_def cs_def using h by (intro get_all_children_run) auto
  have len: "length (sent w') = length (sent w) + length pgs"
    using h by (simp add: w'_def cs_def)
  have cur: "sent w' ! (length (sent w) + Suc i) = children_request E bid psz JNull"
    if "Suc i < length pgs \<and> \<not> truthy (page_cursor (pgs ! i))" for i
  proof -
    have i: "i < length (butlast pgs)" using that by auto
    have "sent w' ! (length (sent w) + Suc i) = map (children_request E bid psz) cs ! Suc i"
      using nth_append_length_plus [of "sent w" "map (children_request E bid psz) cs" "Suc i"]
      by (simp add: w'_def)
    also have "\<dots> = children_request E bid psz (page_cursor (butlast pgs ! i))"
      using i by (simp add: cs_def)
    also have "\<dots> = children_request E bid psz (page_cursor (pgs ! i))"
      using i by (simp add: nth_butlast)
    also have "\<dots> = children_request E bid psz JNull"
      using that children_request_falsy by blast
    finally show ?thesis .
  qed
  show "\<exists>res w'. get_all_children E bid psz w = Some (res, w') \<and>
           length (sent w') = length (sent w) + length pgs \<and>
           (\<forall>i. Suc i < length pgs \<and> \<not> truthy (page_cursor (pgs ! i)) \<longrightarrow>
              sent w' ! (length (sent w) + Suc i) = children_request E bid psz JNull)"
    using run len cur by blast
next
  show "sent (snd (http E ''GET'' (children_path (repr E) bid psz JNull) None w))
        = sent w @ [children_request E bid psz JNull]"
    by (simp add: http_def children_request_def)
next
  show "rq_url (children_request E bid psz JNull) =
        api (''/blocks/'' @ py_str (repr E) bid @ ''/children?page_size='' @ str_int psz)"
    by (rule children_request_url)
next
  assume "\<forall>i. good_reply (reply E (length (sent w) + i))"
  then show "get_all_children E bid psz w = None"
    by (rule get_all_children_diverges)
qed


theorem get_all_children_fetch_count_witness:
  "(\<exists>res w'. get_all_children (sample_env (Some ''k'') (script (map JObj sample_pages)))
                 (JStr ''blk'') 100 sample_world = Some (res, w') \<and>
              length (sent w') = 2 \<and>
              sent w' ! 1 = children_request (sample_env (Some ''k'') (script (map JObj sample_pages)))
                              (JStr ''blk'') 100 JNull)
   \<and> get_all_children
         (sample_env (Some ''k'') (\<lambda>i. Some (JObj [(''has_more'', JBool True)])))
         (JStr ''blk'') 100 sample_world = None"
proof
  let ?E = "sample_env (Some ''k'') (script (map JObj sample_pages))"
  have "\<forall>pgs. pgs \<noteq> [] \<and>
        (\<forall>i<length pgs. reply ?E (length (sent sample_world) + i) = Some (JObj (pgs ! i))) \<and>
        list_all page_ok pgs \<and> list_all page_more (butlast pgs) \<and> \<not> page_more (last pgs) \<longrightarrow>
        (\<exists>res w'. get_all_children ?E (JStr ''blk'') 100 sample_world = Some (res, w') \<and>
           length (sent w') = length (sent sample_world) + length pgs \<and>
           (\<forall>i. Suc i < length pgs \<and> \<not> truthy (page_cursor (pgs ! i)) \<longrightarrow>
              sent w' ! (length (sent sample_world) + Suc i) =
                children_request ?E (JStr ''blk'') 100 JNull))"
    using get_all_children_fetch_count [of ?E sample_world "JStr ''blk''" 100] by (rule conjunct1)
  then have "sample_pages \<noteq> [] \<and>
        (\<forall>i<length sample_pages.
            reply ?E (length (sent sample_world) + i) = Some (JObj (sample_pages ! i))) \<and>
        list_all page_ok sample_pages \<and> list_all page_more (butlast sample_pages) \<and>
        \<not> page_more (last sample_pages) \<longrightarrow>
        (\<exists>res w'. get_all_children ?E (JStr ''blk'') 100 sample_world = Some (res, w') \<and>
           length (sent w') = length (sent sample_world) + length sample_pages \<and>
           (\<forall>i. Suc i < length sample_pages \<and> \<not> truthy (page_cursor (sample_pages ! i)) \<longrightarrow>
              sent w' ! (length (sent sample_world) + Suc i) =
                children_request ?E (JStr ''blk'') 100 JNull))"
    by (rule spec)
  moreover have "sample_pages \<noteq> [] \<and>
        (\<forall>i<length sample_pages.
            reply ?E (length (sent sample_world) + i) = Some (JObj (sample_pages ! i))) \<and>
        list_all page_ok sample_pages \<and> list_all page_more (butlast sample_pages) \<and>
        \<not> page_more (last sample_pages)"
    by (simp add: sample_pages_def sample_env_def sample_world_def script_def page_ok_def
        page_more_def dict_get_def less_Suc_eq all_conj_distrib)
  ultimately obtain res w' where
    r: "get_all_children ?E (JStr ''blk'') 100 sample_world = Some (res, w')"
    and l: "length (sent w') = length (sent sample_world) + length sample_pages"
    and c: "\<forall>i. Suc i < length sample_pages \<and> \<not> truthy (page_cursor (sample_pages ! i)) \<longrightarrow>
              sent w' ! (length (sent sample_world) + Suc i) =
                children_request ?E (JStr ''blk'') 100 JNull"
    by blast
  have "length (sent w') = 2"
    using l by (simp add: sample_pages_def sample_world_def)
  moreover have "sent w' ! 1 = children_request ?E (JStr ''blk'') 100 JNull"
    using c [rule_format, of 0]
    by (simp add: sample_pages_def sample_world_def page_cursor_def dict_get_def)
  ultimately show "\<exists>res w'. get_all_children ?E (JStr ''blk'') 100 sample_world = Some (res, w') \<and>
              length (sent w') = 2 \<and>
              sent w' ! 1 = children_request ?E (JStr ''blk'') 100 JNull"
    using r by blast
next
  let ?E = "sample_env (Some ''k'') (\<lambda>i. Some (JObj [(''has_more'', JBool True)]))"
  have "(\<forall>i. good_reply (reply ?E (length (sent sample_world) + i))) \<longrightarrow>
        get_all_children ?E (JStr ''blk'') 100 sample_world = None"
    using get_all_children_fetch_count [of ?E sample_world "JStr ''blk''" 100] by blast
  moreover have "\<forall>i. good_reply (reply ?E (length (sent sample_world) + i))"
    by (simp add: sample_env_def good_reply_def page_ok_def page_more_def dict_get_def)
  ultimately show "get_all_children ?E (JStr ''blk'') 100 sample_world = None"
    by (rule mp)
qed

section \<open>Page exporter: one level of children\<close>

lemma get_all_children_sent:
  assumes "get_all_children E bid psz w = Some (res, w')"
  shows "\<exists>cs. cs \<noteq> [] \<and> w' = w\<lparr>sent := sent w @ map (children_request E bid psz) cs\<rparr>"
  using children_loop_sent [of E bid psz "[]" JNull w "(res, w')"] assms
  by (simp add: get_all_children_def)

lemma render_all_map:
  "render_all r ks i = Inr ss \<longleftrightarrow> map (\<lambda>k. block_to_md r k i) ks = map Inr ss"
proof (induction ks arbitrary: ss)
  case Nil
  then show ?case by auto
next
  case (Cons k ks)
  show ?case
  proof (cases "block_to_md r k i")
    case (Inl e)
    then show ?thesis by (cases ss) auto
  next
    case (Inr s)
    show ?thesis
    proof (cases "render_all r ks i")
      case (Inl e)
      then have "\<And>ss'. map (\<lambda>k. block_to_md r k i) ks \<noteq> map Inr ss'"
        using Cons.IH by auto
      then show ?thesis using Inl Inr by (cases ss) auto
    next
      case (Inr ss')
      then have "map (\<lambda>k. block_to_md r k i) ks = map Inr ss'"
        using Cons.IH by simp
      then show ?thesis using Inr \<open>block_to_md r k i = Inr s\<close>
        by (cases ss) (auto simp: inj_map_eq_map [OF inj_Inr])
    qed
  qed
qed

lemma sample_item_md: "block_to_md sample_repr (JObj sample_item) 0 = Inr ''- x\<newline>''"
  by (simp add: sample_item_def block_to_md_def startswith_def dict_get_def payload_text_def
      payload_get_def rt_to_md_def wrap_def indent_prefix_def)

lemma sample_child_page_md:
  "block_to_md sample_repr (JObj sample_child_page) 0 = Inr ''- T\<newline>''"
  by (simp add: sample_child_page_def block_to_md_def startswith_def dict_get_def
      payload_get_def indent_prefix_def)

lemma sample_kid_md: "block_to_md sample_repr sample_kid 1 = Inr ''  y\<newline>\<newline>''"
  by (simp add: sample_kid_def block_to_md_def startswith_def dict_get_def payload_text_def
      payload_get_def rt_to_md_def wrap_def indent_prefix_def strip_def rstrip_def
      py_isspace_def)

lemma block_to_md_dict:
  assumes "block_to_md r b i = Inr s"
  shows "\<exists>kvs. b = JObj kvs"
  using assms by (cases b) (simp_all add: block_to_md_def)

lemma export_block_leaf:
  assumes "block_to_md (repr E) b 0 = Inr s" and "\<not> wants_children b"
  shows "export_block E b w = Some (Inr [s], w)"
proof -
  obtain kvs where b: "b = JObj kvs" using block_to_md_dict [OF assms(1)] by blast
  show ?thesis
    using assms b by (auto simp: export_block_def wants_children_def)
qed

lemma export_block_parent:
  assumes "block_to_md (repr E) b 0 = Inr s" and "wants_children b"
    and "subscript b ''id'' = Inr bid"
    and "get_all_children E bid 100 w = Some (Inr kids, w1)"
    and "map (\<lambda>k. block_to_md (repr E) k 1) kids = map Inr ks"
  shows "export_block E b w = Some (Inr (s # ks @ [''\<newline>'']), w1)"
proof -
  obtain kvs where b: "b = JObj kvs" using block_to_md_dict [OF assms(1)] by blast
  have "render_all (repr E) kids 1 = Inr ks"
    using assms(5) render_all_map by blast
  then show ?thesis
    using assms(1-4) b by (simp add: export_block_def wants_children_def)
qed

lemma renders_export_blocks:
  "renders E bs w ss w' \<Longrightarrow> export_blocks E bs w = Some (Inr ss, w')"
proof (induction rule: renders.induct)
  case (none w)
  show ?case by simp
next
  case (leaf b s bs w ss w')
  then show ?case by (simp add: export_block_leaf)
next
  case (parent b s bid w kids w1 ks bs ss w')
  have "export_block E b w = Some (Inr (s # ks @ [''\<newline>'']), w1)"
    by (rule export_block_parent) (use parent in auto)
  then show ?case using parent.IH by simp
qed

lemma export_blocks_renders:
  "export_blocks E bs w = Some (Inr ss, w') \<Longrightarrow> renders E bs w ss w'"
proof (induction bs arbitrary: w ss)
  case Nil
  then show ?case by (auto intro: renders.none)
next
  case (Cons b bs)
  from Cons.prems obtain s1 w1 rest
    where eb: "export_block E b w = Some (Inr s1, w1)"
      and er: "export_blocks E bs w1 = Some (Inr rest, w')" and ss: "ss = s1 @ rest"
    by (auto split: option.splits sum.splits prod.splits)
  have r: "renders E bs w1 rest w'" by (rule Cons.IH [OF er])
  from eb obtain s where md: "block_to_md (repr E) b 0 = Inr s"
    by (cases "block_to_md (repr E) b 0") (auto simp: export_block_def)
  obtain kvs where b: "b = JObj kvs" using block_to_md_dict [OF md] by blast
  show ?case
  proof (cases "wants_children b")
    case False
    then have "s1 = [s]" "w1 = w" using eb export_block_leaf [OF md False, of w] by auto
    then show ?thesis using renders.leaf [OF md False] r ss by simp
  next
    case True
    then have c: "truthy (dict_get kvs ''has_children'' JNull) \<and>
                  get b ''type'' JNull \<noteq> Inr (JStr ''child_page'')"
      using b by (simp add: wants_children_def)
    from eb md b c obtain bid where i: "subscript b ''id'' = Inr bid"
      by (cases "subscript b ''id''") (auto simp: export_block_def)
    from eb md b c i obtain kids where g: "get_all_children E bid 100 w = Some (Inr kids, w1)"
      by (auto simp: export_block_def split: option.splits sum.splits prod.splits)
    from eb md b c i g obtain ks where k: "render_all (repr E) kids 1 = Inr ks"
      and s1: "s1 = s # ks @ [''\<newline>'']"
      by (auto simp: export_block_def split: sum.splits)
    have m: "map (\<lambda>k. block_to_md (repr E) k 1) kids = map Inr ks"
      using k render_all_map by blast
    show ?thesis
      using renders.parent [OF md True i g m r] ss s1 by simp
  qed
qed

lemma renders_sent:
  assumes "renders E bs w ss w'"
  shows "\<exists>rs. w' = w\<lparr>sent := sent w @ rs\<rparr> \<and>
           (\<forall>rq\<in>set rs. \<exists>b bid c. b \<in> set bs \<and> wants_children b \<and>
               subscript b ''id'' = Inr bid \<and> rq = children_request E bid 100 c) \<and>
           (\<forall>b\<in>set bs. wants_children b \<longrightarrow>
               (\<exists>bid c. subscript b ''id'' = Inr bid \<and> children_request E bid 100 c \<in> set rs))"
  using assms
proof (induction rule: renders.induct)
  case (none w)
  have "w = w\<lparr>sent := sent w @ []\<rparr>" by simp
  then show ?case by (intro exI [of _ "[]"]) simp
next
  case (leaf b s bs w ss w')
  then obtain rs where rs: "w' = w\<lparr>sent := sent w @ rs\<rparr>"
    and only: "\<forall>rq\<in>set rs. \<exists>b bid c. b \<in> set bs \<and> wants_children b \<and>
               subscript b ''id'' = Inr bid \<and> rq = children_request E bid 100 c"
    and each: "\<forall>b\<in>set bs. wants_children b \<longrightarrow>
               (\<exists>bid c. subscript b ''id'' = Inr bid \<and> children_request E bid 100 c \<in> set rs)"
    by blast
  have "\<forall>rq\<in>set rs. \<exists>b' bid c. b' \<in> set (b # bs) \<and> wants_children b' \<and>
               subscript b' ''id'' = Inr bid \<and> rq = children_request E bid 100 c"
    using only by (meson list.set_intros(2))
  moreover have "\<forall>b'\<in>set (b # bs). wants_children b' \<longrightarrow>
               (\<exists>bid c. subscript b' ''id'' = Inr bid \<and> children_request E bid 100 c \<in> set rs)"
    using each leaf.hyps(2) by auto
  ultimately show ?case using rs by blast
next
  case (parent b s bid w kids w1 ks bs ss w')
  obtain cs where cs: "cs \<noteq> []"
    and w1: "w1 = w\<lparr>sent := sent w @ map (children_request E bid 100) cs\<rparr>"
    using get_all_children_sent [OF parent.hyps(4)] by blast
  from parent.IH obtain rs where rs: "w' = w1\<lparr>sent := sent w1 @ rs\<rparr>"
    and only: "\<forall>rq\<in>set rs. \<exists>b bid c. b \<in> set bs \<and> wants_children b \<and>
               subscript b ''id'' = Inr bid \<and> rq = children_request E bid 100 c"
    and each: "\<forall>b\<in>set bs. wants_children b \<longrightarrow>
               (\<exists>bid c. subscript b ''id'' = Inr bid \<and> children_request E bid 100 c \<in> set rs)"
    by blast
  let ?rs = "map (children_request E bid 100) cs @ rs"
  have a: "w' = w\<lparr>sent := sent w @ ?rs\<rparr>"
    using rs w1 by simp
  have b1: "\<forall>rq\<in>set (map (children_request E bid 100) cs).
              \<exists>b' bid' c. b' \<in> set (b # bs) \<and> wants_children b' \<and>
               subscript b' ''id'' = Inr bid' \<and> rq = children_request E bid' 100 c"
    using parent.hyps(2,3) by auto
  have b2: "\<forall>rq\<in>set rs.
              \<exists>b' bid' c. b' \<in> set (b # bs) \<and> wants_children b' \<and>
               subscript b' ''id'' = Inr bid' \<and> rq = children_request E bid' 100 c"
    using only by (meson list.set_intros(2))
  have b: "\<forall>rq\<in>set ?rs.
              \<exists>b' bid' c. b' \<in> set (b # bs) \<and> wants_children b' \<and>
               subscript b' ''id'' = Inr bid' \<and> rq = children_request E bid' 100 c"
    using b1 b2 by (metis Un_iff set_append)
  obtain c0 where "c0 \<in> set cs" using cs by (cases cs) auto
  then have h: "children_request E bid 100 c0 \<in> set ?rs" by simp
  have c: "\<forall>b'\<in>set (b # bs). wants_children b' \<longrightarrow>
               (\<exists>bid' c. subscript b' ''id'' = Inr bid' \<and> children_request E bid' 100 c \<in> set ?rs)"
  proof (intro ballI impI)
    fix b' assume m: "b' \<in> set (b # bs)" and wc: "wants_children b'"
    show "\<exists>bid' c. subscript b' ''id'' = Inr bid' \<and> children_request E bid' 100 c \<in> set ?rs"
    proof (cases "b' = b")
      case True
      then show ?thesis using parent.hyps(3) h by blast
    next
      case False
      then have "b' \<in> set bs" using m by simp
      then obtain bid' c where "subscript b' ''id'' = Inr bid'"
        and "children_request E bid' 100 c \<in> set rs"
        using each wc by blast
      then show ?thesis by auto
    qed
  qed
  show ?case using a b c by blast
qed

lemma sample_tree_fields:
  "repr sample_tree = sample_repr"
  "reply sample_tree 0 = Some (JObj sample_blocks_page)"
  "reply sample_tree (Suc 0) = Some (JObj sample_kids_page)"
  "makedirs sample_tree = (\<lambda>d f. (None, (''mkdir'', d) # f))"
  "write_file sample_tree = (\<lambda>p s f. (None, (p, s) # f))"
  by (simp_all add: sample_tree_def file_env_def script_def)

lemma sample_tree_blocks:
  "get_all_children sample_tree (JStr ''pg'') 100 file_world
   = Some (Inr [JObj sample_item, JObj sample_child_page],
           file_world\<lparr>sent := [children_request sample_tree (JStr ''pg'') 100 JNull]\<rparr>)"
  using get_all_children_run [of "[sample_blocks_page]" sample_tree file_world "JStr ''pg''" 100]
  by (simp add: sample_tree_fields file_world_def sample_blocks_page_def page_ok_def
      page_more_def page_results_def dict_get_def)

lemma sample_tree_kids:
  "get_all_children sample_tree (JStr ''b1'') 100
     (file_world\<lparr>sent := [children_request sample_tree (JStr ''pg'') 100 JNull]\<rparr>)
   = Some (Inr [sample_kid],
           file_world\<lparr>sent := [children_request sample_tree (JStr ''pg'') 100 JNull,
                               children_request sample_tree (JStr ''b1'') 100 JNull]\<rparr>)"
  using get_all_children_run [of "[sample_kids_page]" sample_tree
      "file_world\<lparr>sent := [children_request sample_tree (JStr ''pg'') 100 JNull]\<rparr>"
      "JStr ''b1''" 100]
  by (simp add: sample_tree_fields file_world_def sample_kids_page_def page_ok_def
      page_more_def page_results_def dict_get_def)

lemma sample_tree_renders:
  "renders sample_tree [JObj sample_item, JObj sample_child_page]
     (file_world\<lparr>sent := [children_request sample_tree (JStr ''pg'') 100 JNull]\<rparr>)
     [''- x\<newline>'', ''  y\<newline>\<newline>'', ''\<newline>'', ''- T\<newline>'']
     (file_world\<lparr>sent := [children_request sample_tree (JStr ''pg'') 100 JNull,
                         children_request sample_tree (JStr ''b1'') 100 JNull]\<rparr>)"
proof -
  let ?w2 = "file_world\<lparr>sent := [children_request sample_tree (JStr ''pg'') 100 JNull,
                         children_request sample_tree (JStr ''b1'') 100 JNull]\<rparr>"
  have l: "renders sample_tree [JObj sample_child_page] ?w2 [''- T\<newline>''] ?w2"
  proof (rule renders.leaf [OF _ _ renders.none])
    show "block_to_md (repr sample_tree) (JObj sample_child_page) 0 = Inr ''- T\<newline>''"
      using sample_child_page_md by (simp add: sample_tree_fields)
    show "\<not> wants_children (JObj sample_child_page)"
      by (simp add: wants_children_def sample_child_page_def dict_get_def)
  qed
  have "renders sample_tree (JObj sample_item # [JObj sample_child_page])
     (file_world\<lparr>sent := [children_request sample_tree (JStr ''pg'') 100 JNull]\<rparr>)
     (''- x\<newline>'' # [''  y\<newline>\<newline>''] @ [''\<newline>''] @ [''- T\<newline>'']) ?w2"
  proof (rule renders.parent [OF _ _ _ sample_tree_kids _ l])
    show "block_to_md (repr sample_tree) (JObj sample_item) 0 = Inr ''- x\<newline>''"
      using sample_item_md by (simp add: sample_tree_fields)
    show "wants_children (JObj sample_item)"
      by (simp add: wants_children_def sample_item_def dict_get_def)
    show "subscript (JObj sample_item) ''id'' = Inr (JStr ''b1'')"
      by (simp add: sample_item_def)
    show "map (\<lambda>k. block_to_md (repr sample_tree) k 1) [sample_kid]
            = map Inr [''  y\<newline>\<newline>'']"
      using sample_kid_md by (simp add: sample_tree_fields)
  qed
  then show ?thesis by simp
qed

text \<open>
  Claim C2. \<^verbatim>\<open>export_page\<close> fetches the blocks of the page and handles each in order
  as \<open>renders\<close> says: it fetches and renders the children of a block, at indentation
  1 and followed by one newline, exactly when the block's \<^verbatim>\<open>has_children\<close> is true
  and its type is not \<^verbatim>\<open>child_page\<close>. The loop of the code and \<open>renders\<close> give
  the same strings and the same world. The requests sent while the blocks are handled
  are requests for the children of blocks that want them, at least one for each such
  block and none for any other id, so nothing below the second level is fetched. The
  file written holds the heading, these strings, and one newline at the end.
\<close>

theorem export_page_two_levels:
  assumes "get_all_children E page_id 100 w = Some (Inr blocks, w1)"
    and "renders E blocks w1 ss w2"
    and "makedirs E (dirname p) (fs w2) = (None, f1)"
    and "write_file E p
           (rstrip (''# '' @ py_str (repr E) title @ ''\<newline>\<newline>'' @ concat ss) @ ''\<newline>'') f1
         = (None, f2)"
  shows "export_page E page_id title (JStr p) w = Some (Inr (), w2\<lparr>fs := f2\<rparr>)
       \<and> (\<exists>rs. w2 = w1\<lparr>sent := sent w1 @ rs\<rparr> \<and>
             (\<forall>rq\<in>set rs. \<exists>b bid c. b \<in> set blocks \<and> wants_children b \<and>
                 subscript b ''id'' = Inr bid \<and> rq = children_request E bid 100 c) \<and>
             (\<forall>b\<in>set blocks. wants_children b \<longrightarrow>
                 (\<exists>bid c. subscript b ''id'' = Inr bid \<and>
                    children_request E bid 100 c \<in> set rs)))
       \<and> (\<forall>ss' w'. export_blocks E blocks w1 = Some (Inr ss', w') \<longleftrightarrow>
             renders E blocks w1 ss' w')"
proof (intro conjI allI)
  have b: "export_blocks E blocks w1 = Some (Inr ss, w2)"
    by (rule renders_export_blocks [OF assms(2)])
  show "export_page E page_id title (JStr p) w = Some (Inr (), w2\<lparr>fs := f2\<rparr>)"
    using b assms(1,3,4) by (simp add: export_page_def)
  show "\<exists>rs. w2 = w1\<lparr>sent := sent w1 @ rs\<rparr> \<and>
             (\<forall>rq\<in>set rs. \<exists>b bid c. b \<in> set blocks \<and> wants_children b \<and>
                 subscript b ''id'' = Inr bid \<and> rq = children_request E bid 100 c) \<and>
             (\<forall>b\<in>set blocks. wants_children b \<longrightarrow>
                 (\<exists>bid c. subscript b ''id'' = Inr bid \<and>
                    children_request E bid 100 c \<in> set rs))"
    by (rule renders_sent [OF assms(2)])
  fix ss' w'
  show "export_blocks E blocks w1 = Some (Inr ss', w') \<longleftrightarrow> renders E blocks w1 ss' w'"
    using renders_export_blocks export_blocks_renders by blast
qed

theorem export_page_two_levels_witness:
  "\<exists>w'. export_page sample_tree (JStr ''pg'') (JStr ''T'') (JStr ''out/a.md'') file_world
           = Some (Inr (), w')
       \<and> fs w' = [(''out/a.md'', ''# T\<newline>\<newline>- x\<newline>  y\<newline>\<newline>\<newline>- T\<newline>''),
                  (''mkdir'', ''out'')]
       \<and> map rq_url (sent w') =
           [''https://api.notion.com/v1/blocks/pg/children?page_size=100'',
            ''https://api.notion.com/v1/blocks/b1/children?page_size=100'']"
proof -
  let ?w2 = "file_world\<lparr>sent := [children_request sample_tree (JStr ''pg'') 100 JNull,
                         children_request sample_tree (JStr ''b1'') 100 JNull]\<rparr>"
  let ?ss = "[''- x\<newline>'', ''  y\<newline>\<newline>'', ''\<newline>'', ''- T\<newline>'']"
  let ?doc = "rstrip (''# '' @ py_str (repr sample_tree) (JStr ''T'') @ ''\<newline>\<newline>''
                @ concat ?ss) @ ''\<newline>''"
  have m: "makedirs sample_tree (dirname ''out/a.md'') (fs ?w2) = (None, [(''mkdir'', ''out'')])"
    by (simp add: sample_tree_fields dirname_def file_world_def)
  have f: "write_file sample_tree ''out/a.md'' ?doc [(''mkdir'', ''out'')]
             = (None, [(''out/a.md'', ?doc), (''mkdir'', ''out'')])"
    by (simp add: sample_tree_fields)
  have d: "?doc = ''# T\<newline>\<newline>- x\<newline>  y\<newline>\<newline>\<newline>- T\<newline>''"
    by (simp add: rstrip_def py_isspace_def)
  have n: "str_int 100 = ''100''"
    by (simp add: str_int_def str_nat.simps digit_char_def)
  have u: "map rq_url (sent ?w2) =
           [''https://api.notion.com/v1/blocks/pg/children?page_size=100'',
            ''https://api.notion.com/v1/blocks/b1/children?page_size=100'']"
    by (simp add: children_request_explicit n)
  have "export_page sample_tree (JStr ''pg'') (JStr ''T'') (JStr ''out/a.md'') file_world
          = Some (Inr (), ?w2\<lparr>fs := [(''out/a.md'', ?doc), (''mkdir'', ''out'')]\<rparr>)"
    using export_page_two_levels [OF sample_tree_blocks sample_tree_renders m f]
    by (rule conjunct1)
  then show ?thesis
    using u unfolding d by simp
qed

section \<open>Entry point: the missing credential\<close>

lemma get_all_children_stderr:
  assumes "get_all_children E bid psz w = Some (res, w')"
  shows "stderr w' = stderr w"
  using get_all_children_sent [OF assms] by auto

lemma export_block_stderr:
  assumes "export_block E b w = Some (res, w')"
  shows "stderr w' = stderr w"
proof (cases "block_to_md (repr E) b 0")
  case (Inl e)
  then show ?thesis using assms by (simp add: export_block_def)
next
  case (Inr s)
  show ?thesis
  proof (cases "get b ''has_children'' JNull")
    case (Inl e)
    then show ?thesis using assms Inr by (simp add: export_block_def)
  next
    case hc: (Inr h)
    show ?thesis
    proof (cases "truthy h \<and> get b ''type'' JNull \<noteq> Inr (JStr ''child_page'')")
      case False
      then show ?thesis using assms Inr hc by (auto simp: export_block_def)
    next
      case True
      show ?thesis
      proof (cases "subscript b ''id''")
        case (Inl e)
        then show ?thesis using assms Inr hc True by (simp add: export_block_def)
      next
        case bid: (Inr bid)
        from assms Inr hc True bid
        have "\<exists>res'. get_all_children E bid 100 w = Some (res', w')"
          by (auto simp: export_block_def split: option.splits sum.splits prod.splits)
        then show ?thesis using get_all_children_stderr by blast
      qed
    qed
  qed
qed

lemma export_blocks_stderr:
  "export_blocks E bs w = Some (res, w') \<Longrightarrow> stderr w' = stderr w"
proof (induction bs arbitrary: w res w')
  case Nil
  then show ?case by simp
next
  case (Cons b bs)
  from Cons.prems obtain r1 w1 where b: "export_block E b w = Some (r1, w1)"
    by (cases "export_block E b w") auto
  have s1: "stderr w1 = stderr w" using export_block_stderr [OF b] .
  show ?case
  proof (cases r1)
    case (Inl e)
    then show ?thesis using Cons.prems b s1 by simp
  next
    case (Inr ss)
    from Cons.prems b Inr obtain r2 w2 where bs: "export_blocks E bs w1 = Some (r2, w2)"
      by (cases "export_blocks E bs w1") auto
    have "w' = w2" using Cons.prems b Inr bs by (cases r2) auto
    then show ?thesis using Cons.IH [OF bs] s1 by simp
  qed
qed

lemma export_page_stderr:
  assumes "export_page E page_id title out_path w = Some (res, w')"
  shows "stderr w' = stderr w"
proof -
  from assms obtain r1 w1 where g: "get_all_children E page_id 100 w = Some (r1, w1)"
    by (cases "get_all_children E page_id 100 w") (auto simp: export_page_def)
  have s1: "stderr w1 = stderr w" using get_all_children_stderr [OF g] .
  show ?thesis
  proof (cases r1)
    case (Inl e)
    then show ?thesis using assms g s1 by (simp add: export_page_def)
  next
    case (Inr blocks)
    from assms g Inr obtain r2 w2 where b: "export_blocks E blocks w1 = Some (r2, w2)"
      by (cases "export_blocks E blocks w1") (auto simp: export_page_def)
    have s2: "stderr w2 = stderr w" using export_blocks_stderr [OF b] s1 by simp
    show ?thesis
    proof (cases r2)
      case (Inl e)
      then show ?thesis using assms g \<open>r1 = Inr blocks\<close> b s2 by (simp add: export_page_def)
    next
      case r2: (Inr rest)
      have "\<exists>f. w' = w2\<lparr>fs := f\<rparr> \<or> w' = w2"
        using assms g \<open>r1 = Inr blocks\<close> b r2
        by (auto simp: export_page_def Let_def split: json.splits prod.splits option.splits)
      then show ?thesis using s2 by auto
    qed
  qed
qed

lemma export_entries_stderr:
  "export_entries E entries w = Some (res, w') \<Longrightarrow> stderr w' = stderr w"
proof (induction entries arbitrary: w)
  case Nil
  then show ?case by simp
next
  case (Cons entry entries)
  obtain page_id meta where entry: "entry = (page_id, meta)" by (cases entry)
  show ?case
  proof (cases "subscript meta ''title''")
    case (Inl e)
    then show ?thesis using Cons.prems entry by simp
  next
    case t: (Inr title)
    show ?thesis
    proof (cases "subscript meta ''path''")
      case (Inl e)
      then show ?thesis using Cons.prems entry t by simp
    next
      case p: (Inr path)
      from Cons.prems entry t p obtain r1 w1
        where e: "export_page E (JStr page_id) title path w = Some (r1, w1)"
        by (cases "export_page E (JStr page_id) title path w") auto
      have s1: "stderr w1 = stderr w" using export_page_stderr [OF e] .
      show ?thesis
      proof (cases r1)
        case (Inl x)
        then show ?thesis using Cons.prems entry t p e s1 by simp
      next
        case (Inr u)
        then have "export_entries E entries w1 = Some (res, w')"
          using Cons.prems entry t p e by simp
        then show ?thesis using Cons.IH s1 by simp
      qed
    qed
  qed
qed

lemma sample_run_fetch:
  "get_all_children sample_run (JStr ''pg'') 100 sample_world
   = Some (Inr [], sample_world\<lparr>sent := [children_request sample_run (JStr ''pg'') 100 JNull]\<rparr>)"
  using get_all_children_run [of "[[(''results'', JArr []), (''has_more'', JBool False)]]"
      sample_run sample_world "JStr ''pg''" 100]
  by (simp add: sample_run_def sample_env_def sample_world_def script_def page_ok_def
      page_more_def page_results_def dict_get_def)

lemma sample_run_main:
  "main sample_run sample_world
   = Some (Returned,
           sample_world\<lparr>sent := [children_request sample_run (JStr ''pg'') 100 JNull]\<rparr>)"
proof -
  have k: "NOTION_KEY sample_run = Some ''k''" "stdin sample_run = Some sample_manifest"
    "makedirs sample_run = (\<lambda>p f. (None, f))" "write_file sample_run = (\<lambda>p s f. (None, f))"
    by (simp_all add: sample_run_def sample_env_def)
  have e: "export_page sample_run (JStr ''pg'') (JStr ''T'') (JStr ''out/a.md'') sample_world
        = Some (Inr (),
            sample_world\<lparr>sent := [children_request sample_run (JStr ''pg'') 100 JNull]\<rparr>)"
    unfolding export_page_def sample_run_fetch by (simp add: k sample_world_def)
  show ?thesis
    by (simp add: main_def k key_missing_def sample_manifest_def dict_items_def dict_keys_def
        dict_get_def e)
qed

text \<open>
  Claim C7. When the credential is missing (not set, or empty), \<^verbatim>\<open>main\<close> ends the
  process with status 2 after it printed a message on the error stream; nothing else
  of the world has changed, so no request was sent and no manifest entry was handled.
  When the credential is there, \<^verbatim>\<open>main\<close> never ends that way: if it ends, it
  returns or an exception leaves it, and it printed nothing on the error stream.
\<close>

theorem main_missing_key:
  "(key_missing (NOTION_KEY E) \<longrightarrow>
      main E w = Some (Exit 2, w\<lparr>stderr := stderr w @ ''Missing NOTION_KEY\<newline>''\<rparr>))
   \<and> (\<not> key_missing (NOTION_KEY E) \<longrightarrow>
        (\<forall>oc w'. main E w = Some (oc, w') \<longrightarrow>
           (oc = Returned \<or> (\<exists>e. oc = Uncaught e)) \<and> stderr w' = stderr w))"
proof (intro conjI impI allI)
  assume "key_missing (NOTION_KEY E)"
  then show "main E w = Some (Exit 2, w\<lparr>stderr := stderr w @ ''Missing NOTION_KEY\<newline>''\<rparr>)"
    by (simp add: main_def)
next
  fix oc w'
  assume k: "\<not> key_missing (NOTION_KEY E)" and m: "main E w = Some (oc, w')"
  show "oc = Returned \<or> (\<exists>e. oc = Uncaught e)"
    using k m by (auto simp: main_def split: option.splits json.splits sum.splits prod.splits)
  show "stderr w' = stderr w"
  proof (cases "stdin E")
    case None
    then show ?thesis using k m by (simp add: main_def)
  next
    case (Some mapping)
    show ?thesis
    proof (cases mapping)
      case (JObj kvs)
      from k m Some JObj obtain r where "export_entries E (dict_items kvs) w = Some (r, w')"
        by (auto simp: main_def split: option.splits sum.splits prod.splits)
      then show ?thesis by (rule export_entries_stderr)
    qed (use k m Some in \<open>simp_all add: main_def\<close>)
  qed
qed

theorem main_missing_key_witness:
  "main (sample_env None (script [])) sample_world
     = Some (Exit 2, sample_world\<lparr>stderr := ''Missing NOTION_KEY\<newline>''\<rparr>)
   \<and> main (sample_env (Some []) (script [])) sample_world
     = Some (Exit 2, sample_world\<lparr>stderr := ''Missing NOTION_KEY\<newline>''\<rparr>)
   \<and> (\<exists>w'. main sample_run sample_world = Some (Returned, w') \<and> stderr w' = [])"
proof (intro conjI)
  show "main (sample_env None (script [])) sample_world
     = Some (Exit 2, sample_world\<lparr>stderr := ''Missing NOTION_KEY\<newline>''\<rparr>)"
    using main_missing_key [of "sample_env None (script [])" sample_world]
    by (simp add: sample_env_def key_missing_def sample_world_def)
  show "main (sample_env (Some []) (script [])) sample_world
     = Some (Exit 2, sample_world\<lparr>stderr := ''Missing NOTION_KEY\<newline>''\<rparr>)"
    using main_missing_key [of "sample_env (Some []) (script [])" sample_world]
    by (simp add: sample_env_def key_missing_def sample_world_def)
  have "\<not> key_missing (NOTION_KEY sample_run)"
    by (simp add: sample_run_def sample_env_def key_missing_def)
  then have "stderr (sample_world\<lparr>sent := [children_request sample_run (JStr ''pg'') 100 JNull]\<rparr>)
        = stderr sample_world"
    using main_missing_key [of sample_run sample_world] sample_run_main by blast
  then show "\<exists>w'. main sample_run sample_world = Some (Returned, w') \<and> stderr w' = []"
    using sample_run_main by (simp add: sample_world_def)
qed

end
